theory Spec2Isabelle
  imports Main
begin

section \<open>Queue (queue.ts)\<close>

text \<open>
  \<open>createQueue\<close> closes over one JavaScript array \<open>queue\<close>. The array is the whole state
  of the object, modelled as a list with index 0 first. A read that JavaScript answers
  with \<open>undefined\<close> is \<open>None\<close>. Every method takes the array and returns its result
  together with the array it leaves behind.
\<close>

type_synonym 'a queue = "'a list"

definition createQueue :: "'a queue" where
  "createQueue = []"

text \<open>\<open>queue[i]\<close>: \<open>undefined\<close> outside \<open>0 .. length - 1\<close>.\<close>

definition js_index :: "'a list \<Rightarrow> int \<Rightarrow> 'a option" where
  "js_index xs i = (if 0 \<le> i \<and> i < int (length xs) then Some (xs ! nat i) else None)"

text \<open>\<open>queue.unshift(item)\<close>: the item becomes element 0.\<close>

definition queue_enqueue :: "'a \<Rightarrow> 'a queue \<Rightarrow> 'a queue" where
  "queue_enqueue item queue = item # queue"

text \<open>\<open>queue.pop()\<close>: removes and returns the last element, \<open>undefined\<close> on an empty array.\<close>

definition queue_dequeue :: "'a queue \<Rightarrow> 'a option \<times> 'a queue" where
  "queue_dequeue queue =
     (if queue = [] then (None, queue) else (Some (last queue), butlast queue))"

definition queue_peek :: "'a queue \<Rightarrow> 'a option \<times> 'a queue" where
  "queue_peek queue = (let nextIdx = int (length queue) - 1 in (js_index queue nextIdx, queue))"

definition queue_length :: "'a queue \<Rightarrow> int" where
  "queue_length queue = int (length queue)"

definition queue_isEmpty :: "'a queue \<Rightarrow> bool" where
  "queue_isEmpty queue = (queue_length queue = 0)"

section \<open>PriorityQueue (priority-queue.ts)\<close>

record 'a PriorityQueue =
  lowPriorityQueue :: "'a queue"
  highPriorityQueue :: "'a queue"

definition createPriorityQueue :: "'a PriorityQueue" where
  "createPriorityQueue = \<lparr>lowPriorityQueue = createQueue, highPriorityQueue = createQueue\<rparr>"

definition pq_enqueue :: "'a \<Rightarrow> bool \<Rightarrow> 'a PriorityQueue \<Rightarrow> 'a PriorityQueue" where
  "pq_enqueue item isHeighPriority pq =
     (if isHeighPriority
      then pq\<lparr>highPriorityQueue := queue_enqueue item (highPriorityQueue pq)\<rparr>
      else pq\<lparr>lowPriorityQueue := queue_enqueue item (lowPriorityQueue pq)\<rparr>)"

definition pq_dequeue :: "'a PriorityQueue \<Rightarrow> 'a option \<times> 'a PriorityQueue" where
  "pq_dequeue pq =
     (if \<not> queue_isEmpty (highPriorityQueue pq)
      then (let (r, q) = queue_dequeue (highPriorityQueue pq) in (r, pq\<lparr>highPriorityQueue := q\<rparr>))
      else (let (r, q) = queue_dequeue (lowPriorityQueue pq) in (r, pq\<lparr>lowPriorityQueue := q\<rparr>)))"

definition pq_peek :: "'a PriorityQueue \<Rightarrow> 'a option \<times> 'a PriorityQueue" where
  "pq_peek pq =
     (if \<not> queue_isEmpty (highPriorityQueue pq)
      then (let (r, q) = queue_peek (highPriorityQueue pq) in (r, pq\<lparr>highPriorityQueue := q\<rparr>))
      else (let (r, q) = queue_peek (lowPriorityQueue pq) in (r, pq\<lparr>lowPriorityQueue := q\<rparr>)))"

definition pq_length :: "'a PriorityQueue \<Rightarrow> int" where
  "pq_length pq = queue_length (highPriorityQueue pq) + queue_length (lowPriorityQueue pq)"

definition pq_isEmpty :: "'a PriorityQueue \<Rightarrow> bool" where
  "pq_isEmpty pq = (queue_isEmpty (highPriorityQueue pq) \<and> queue_isEmpty (lowPriorityQueue pq))"

text \<open>
  The two-lane queue as the specification words it: each lane is the sequence of its
  waiting items, oldest first. An item joins the end of its lane; the next item served is
  the oldest of the high lane, or the oldest of the low lane when the high lane is empty.
\<close>

type_synonym 'a lanes = "'a list \<times> 'a list"

definition lanes :: "'a PriorityQueue \<Rightarrow> 'a lanes" where
  "lanes pq = (rev (highPriorityQueue pq), rev (lowPriorityQueue pq))"

fun spec_enqueue :: "'a \<Rightarrow> bool \<Rightarrow> 'a lanes \<Rightarrow> 'a lanes" where
  "spec_enqueue x high (hs, ls) = (if high then (hs @ [x], ls) else (hs, ls @ [x]))"

fun spec_front :: "'a lanes \<Rightarrow> 'a option" where
  "spec_front (h # hs, ls) = Some h"
| "spec_front ([], l # ls) = Some l"
| "spec_front ([], []) = None"

fun spec_serve :: "'a lanes \<Rightarrow> 'a lanes" where
  "spec_serve (h # hs, ls) = (hs, ls)"
| "spec_serve ([], l # ls) = ([], ls)"
| "spec_serve ([], []) = ([], [])"

section \<open>LinkedList (linked list module)\<close>

text \<open>
  Nodes are JavaScript objects, shared by reference: \<open>head\<close>, \<open>tail\<close> and the \<open>next\<close>
  fields may alias one node. The model keeps them in an explicit store, a list of nodes
  in order of creation; a reference is the position of a node in the store, and \<open>null\<close>
  (or \<open>undefined\<close>) is \<open>None\<close>. \<open>createNode\<close> appends to the store. Nothing is ever
  removed from the store: a node no longer referenced is garbage, as in JavaScript.
  A reference held by the program always denotes a node of the store; the model reads
  \<open>h ! a\<close> only at such references (\<open>store_ok\<close> below, kept by every call).

  \<open>length\<close> is a JavaScript number that only sees \<open>++\<close> and \<open>--\<close>; it is an \<open>int\<close>.
  The index of \<open>get\<close> and \<open>delete\<close> is an integer, as the specification types it.

  Reading a property of \<open>null\<close> or \<open>undefined\<close> throws a \<open>TypeError\<close>. In every method
  a throw happens before the first assignment to the list or to a node, so a call that
  throws leaves the list as it was.
\<close>

type_synonym addr = nat

record 'a INode =
  value' :: 'a
  next' :: "addr option"

record 'a LinkedList =
  heap :: "'a INode list"
  head :: "addr option"
  tail :: "addr option"
  length' :: int

datatype error = TypeError

definition createNode :: "'a \<Rightarrow> 'a INode" where
  "createNode v = \<lparr>value' = v, next' = None\<rparr>"

definition createLinkedList :: "'a LinkedList" where
  "createLinkedList = \<lparr>heap = [], head = None, tail = None, length' = 0\<rparr>"

definition isEmpty :: "'a LinkedList \<Rightarrow> bool" where
  "isEmpty s = (length' s = 0)"

text \<open>\<open>n.next = x\<close> on the node at address \<open>a\<close>.\<close>

definition set_next :: "addr \<Rightarrow> addr option \<Rightarrow> 'a INode list \<Rightarrow> 'a INode list" where
  "set_next a x h = h[a := (h ! a)\<lparr>next' := x\<rparr>]"

definition push :: "'a \<Rightarrow> 'a LinkedList \<Rightarrow> error + (addr \<times> 'a LinkedList)" where
  "push v s =
     (let node = length (heap s);
          h = heap s @ [createNode v]
      in if head s = None
         then Inr (node, s\<lparr>heap := h, head := Some node, tail := Some node,
                            length' := length' s + 1\<rparr>)
         else (case tail s of
                 None \<Rightarrow> Inl TypeError
               | Some t \<Rightarrow> Inr (node, s\<lparr>heap := set_next t (Some node) h, tail := Some node,
                                         length' := length' s + 1\<rparr>)))"

text \<open>
  The search loop of \<open>pop\<close>: \<open>while (current) { if (current.next === this.tail) { penultimate
  = current; break }; current = current.next }\<close>. It returns \<open>penultimate\<close>, which is
  still \<open>undefined\<close> when the walk falls off the chain. On a cyclic chain that does not
  hold the tail the loop never ends: that is the outer \<open>None\<close>.
\<close>

partial_function (option) find_penultimate ::
  "'a INode list \<Rightarrow> addr option \<Rightarrow> addr option \<Rightarrow> addr option option" where
  "find_penultimate h t current =
     (case current of
        None \<Rightarrow> Some None
      | Some c \<Rightarrow> if next' (h ! c) = t then Some (Some c)
                  else find_penultimate h t (next' (h ! c)))"

declare find_penultimate.simps [code]

definition pop :: "'a LinkedList \<Rightarrow> (error + (addr option \<times> 'a LinkedList)) option" where
  "pop s =
     (if isEmpty s then Some (Inr (None, s))
      else let node = tail s in
        if head s = tail s
        then Some (Inr (node, s\<lparr>head := None, tail := None, length' := length' s - 1\<rparr>))
        else (case find_penultimate (heap s) (tail s) (head s) of
                None \<Rightarrow> None
              | Some None \<Rightarrow> Some (Inl TypeError)
              | Some (Some penultimate) \<Rightarrow>
                  Some (Inr (node, s\<lparr>heap := set_next penultimate None (heap s),
                                      tail := Some penultimate,
                                      length' := length' s - 1\<rparr>))))"

text \<open>
  The loop of \<open>get\<close>, \<open>while (i < index) { i++; current = current.next }\<close>, with \<open>n\<close> the
  number of iterations left.
\<close>

fun walk :: "'a INode list \<Rightarrow> nat \<Rightarrow> addr option \<Rightarrow> error + addr option" where
  "walk h 0 current = Inr current"
| "walk h (Suc n) None = Inl TypeError"
| "walk h (Suc n) (Some c) = walk h n (next' (h ! c))"

definition get :: "int \<Rightarrow> 'a LinkedList \<Rightarrow> error + (addr option \<times> 'a LinkedList)" where
  "get index s =
     (if index < 0 \<or> index > length' s then Inr (None, s)
      else if index = 0 then Inr (head s, s)
      else (case walk (heap s) (nat index) (head s) of
              Inl e \<Rightarrow> Inl e
            | Inr current \<Rightarrow> Inr (current, s)))"

text \<open>
  The loop of \<open>delete\<close>, \<open>while (i < index) { i++; previous = current; current =
  current.next }\<close>, returning \<open>previous\<close> and \<open>current\<close>.
\<close>

fun walk_previous ::
  "'a INode list \<Rightarrow> nat \<Rightarrow> addr option \<Rightarrow> addr option \<Rightarrow> error + (addr option \<times> addr option)" where
  "walk_previous h 0 previous current = Inr (previous, current)"
| "walk_previous h (Suc n) previous None = Inl TypeError"
| "walk_previous h (Suc n) previous (Some c) = walk_previous h n (Some c) (next' (h ! c))"

definition delete :: "int \<Rightarrow> 'a LinkedList \<Rightarrow> error + (addr option \<times> 'a LinkedList)" where
  "delete index s =
     (if index < 0 \<or> index > length' s then Inr (None, s)
      else if index = 0
      then (case head s of
              None \<Rightarrow> Inl TypeError
            | Some d \<Rightarrow> Inr (Some d, s\<lparr>head := next' (heap s ! d), length' := length' s - 1\<rparr>))
      else (case walk_previous (heap s) (nat index) None (head s) of
              Inl e \<Rightarrow> Inl e
            | Inr (previous, current) \<Rightarrow>
                (case current of
                   None \<Rightarrow> Inl TypeError
                 | Some c \<Rightarrow>
                     (case previous of
                        None \<Rightarrow> Inl TypeError
                      | Some p \<Rightarrow>
                          Inr (Some c, s\<lparr>heap := set_next p (next' (heap s ! c)) (heap s),
                                          length' := length' s - 1\<rparr>)))))"

text \<open>
  The loop of \<open>print\<close>, \<open>while (current) { values.push(current.value); current =
  current.next }\<close>; it never ends on a cyclic chain.
\<close>

partial_function (option) collect_values ::
  "'a INode list \<Rightarrow> addr option \<Rightarrow> 'a list \<Rightarrow> 'a list option" where
  "collect_values h current values =
     (case current of
        None \<Rightarrow> Some values
      | Some c \<Rightarrow> collect_values h (next' (h ! c)) (values @ [value' (h ! c)]))"

declare collect_values.simps [code]

text \<open>
  \<open>Array.prototype.join\<close> over the strings of the elements. \<open>print\<close> takes the conversion
  of a value to its string (JavaScript's \<open>ToString\<close>, with the empty string for \<open>null\<close>
  and \<open>undefined\<close>) as a parameter.
\<close>

fun join :: "string \<Rightarrow> string list \<Rightarrow> string" where
  "join sep [] = []"
| "join sep [x] = x"
| "join sep (x # y # ys) = x @ sep @ join sep (y # ys)"

definition print :: "('a \<Rightarrow> string) \<Rightarrow> 'a LinkedList \<Rightarrow> (string \<times> 'a LinkedList) option" where
  "print toStr s =
     (case collect_values (heap s) (head s) [] of
        None \<Rightarrow> None
      | Some values \<Rightarrow> Some (join '' => '' (map toStr values), s))"

subsection \<open>Sequences of calls\<close>

text \<open>
  A client holds one list and calls its methods one after the other. A call that throws
  leaves the list as it was (see above); a call that never returns ends the sequence,
  which is \<open>None\<close>.
\<close>

datatype 'a call = Push 'a | Pop | Get int | Delete int | Print | IsEmpty

definition after :: "'a LinkedList \<Rightarrow> error + ('r \<times> 'a LinkedList) \<Rightarrow> 'a LinkedList" where
  "after s r = (case r of Inl e \<Rightarrow> s | Inr (x, s') \<Rightarrow> s')"

fun exec :: "('a \<Rightarrow> string) \<Rightarrow> 'a call \<Rightarrow> 'a LinkedList \<Rightarrow> 'a LinkedList option" where
  "exec toStr (Push v) s = Some (after s (push v s))"
| "exec toStr Pop s = map_option (after s) (pop s)"
| "exec toStr (Get i) s = Some (after s (get i s))"
| "exec toStr (Delete i) s = Some (after s (delete i s))"
| "exec toStr Print s = map_option snd (print toStr s)"
| "exec toStr IsEmpty s = Some s"

fun run :: "('a \<Rightarrow> string) \<Rightarrow> 'a call list \<Rightarrow> 'a LinkedList \<Rightarrow> 'a LinkedList option" where
  "run toStr [] s = Some s"
| "run toStr (c # cs) s = Option.bind (exec toStr c s) (run toStr cs)"

text \<open>\<open>values.map(val => list.push(val))\<close>: one \<open>push\<close> per value, stopped by a throw.\<close>

fun pushes :: "'a list \<Rightarrow> 'a LinkedList \<Rightarrow> error + 'a LinkedList" where
  "pushes [] s = Inr s"
| "pushes (v # vs) s = (case push v s of Inl e \<Rightarrow> Inl e | Inr (node, s') \<Rightarrow> pushes vs s')"

text \<open>
  A sequence of removals, each a \<open>pop\<close> or a \<open>delete\<close>, all successful: every call
  returns a node. The result is the list they leave, \<open>None\<close> when one of the calls
  returns \<open>null\<close>, throws or does not return.
\<close>

datatype removal = ByPop | ByDelete int

fun remove :: "removal \<Rightarrow> 'a LinkedList \<Rightarrow> (error + (addr option \<times> 'a LinkedList)) option" where
  "remove ByPop s = pop s"
| "remove (ByDelete i) s = Some (delete i s)"

fun removals :: "removal list \<Rightarrow> 'a LinkedList \<Rightarrow> 'a LinkedList option" where
  "removals [] s = Some s"
| "removals (r # rs) s =
     (case remove r s of
        Some (Inr (Some node, s')) \<Rightarrow> removals rs s'
      | _ \<Rightarrow> None)"

text \<open>
  Any sequence of calls of \<open>pop\<close> and \<open>delete\<close>, with the number of calls that returned a
  node and the list they leave; a call that throws or returns \<open>null\<close> is not counted.
\<close>

definition returned_node :: "error + (addr option \<times> 'a LinkedList) \<Rightarrow> nat" where
  "returned_node r = (case r of Inr (Some node, s') \<Rightarrow> 1 | _ \<Rightarrow> 0)"

fun count_removals :: "removal list \<Rightarrow> 'a LinkedList \<Rightarrow> (nat \<times> 'a LinkedList) option" where
  "count_removals [] s = Some (0, s)"
| "count_removals (r # rs) s =
     (case remove r s of
        None \<Rightarrow> None
      | Some res \<Rightarrow>
          (case count_removals rs (after s res) of
             None \<Rightarrow> None
           | Some (m, s') \<Rightarrow> Some (returned_node res + m, s')))"

subsection \<open>The data model of the specification\<close>

text \<open>
  \<open>chain h p as\<close>: starting at reference \<open>p\<close> and following \<open>next\<close>, the nodes met are
  exactly \<open>as\<close>, in this order, and then the chain ends with \<open>null\<close>.
\<close>

primrec chain :: "'a INode list \<Rightarrow> addr option \<Rightarrow> addr list \<Rightarrow> bool" where
  "chain h p [] = (p = None)"
| "chain h p (a # as) = (p = Some a \<and> a < length h \<and> chain h (next' (h ! a)) as)"

text \<open>
  A list in the sense of the specification's data model, with nodes \<open>as\<close> from the head:
  the chain from \<open>head\<close> is \<open>as\<close>, \<open>length\<close> counts it and \<open>tail\<close> is its last node.
\<close>

definition well_formed :: "'a LinkedList \<Rightarrow> addr list \<Rightarrow> bool" where
  "well_formed s as =
     (chain (heap s) (head s) as \<and> length' s = int (length as)
      \<and> tail s = (if as = [] then None else Some (last as)))"

text \<open>One step along \<open>next\<close>; there is no step from \<open>null\<close>.\<close>

definition follow :: "'a INode list \<Rightarrow> addr option \<Rightarrow> addr option" where
  "follow h p = (case p of None \<Rightarrow> None | Some a \<Rightarrow> next' (h ! a))"

text \<open>
  The invariants I1 to I4 as the specification words them. In I3 the walk that reaches
  the tail visits \<open>length\<close> nodes, the head being the first, so it takes \<open>length - 1\<close>
  steps.
\<close>

definition I1 :: "'a LinkedList \<Rightarrow> bool" where
  "I1 s = ((length' s = 0) = (head s = None) \<and> (head s = None) = (tail s = None))"

definition I2 :: "'a LinkedList \<Rightarrow> bool" where
  "I2 s = (length' s \<noteq> 1 \<or> head s = tail s)"

definition I3 :: "'a LinkedList \<Rightarrow> bool" where
  "I3 s = (0 \<le> length' s
           \<and> (follow (heap s) ^^ (nat (length' s) - 1)) (head s) = tail s
           \<and> (follow (heap s) ^^ nat (length' s)) (head s) = None)"

definition I4 :: "'a LinkedList \<Rightarrow> bool" where
  "I4 s = (case tail s of None \<Rightarrow> True | Some t \<Rightarrow> next' (heap s ! t) = None)"

text \<open>
  What every sequence of calls keeps true of the store, also where \<open>delete\<close> has left
  \<open>tail\<close> behind: \<open>next\<close> always leads to a node created later (\<open>forward\<close>), \<open>head\<close> and
  \<open>tail\<close> denote nodes of the store, the node at \<open>tail\<close> has no successor, and a list
  with a head has a tail.
\<close>

definition forward :: "'a INode list \<Rightarrow> bool" where
  "forward h =
     (\<forall>a \<in> set [0 ..< length h].
        case next' (h ! a) of None \<Rightarrow> True | Some b \<Rightarrow> a < b \<and> b < length h)"

definition valid_ref :: "'a INode list \<Rightarrow> addr option \<Rightarrow> bool" where
  "valid_ref h p = (case p of None \<Rightarrow> True | Some a \<Rightarrow> a < length h)"

definition store_ok :: "'a LinkedList \<Rightarrow> bool" where
  "store_ok s =
     (forward (heap s) \<and> valid_ref (heap s) (head s) \<and> valid_ref (heap s) (tail s)
      \<and> follow (heap s) (tail s) = None
      \<and> (head s = None \<or> tail s \<noteq> None))"

text \<open>A list whose store is in order and whose \<open>length\<close> counts the chain \<open>as\<close> from \<open>head\<close>.\<close>

definition counted :: "'a LinkedList \<Rightarrow> addr list \<Rightarrow> bool" where
  "counted s as = (store_ok s \<and> chain (heap s) (head s) as \<and> length' s = int (length as))"

section \<open>Theorems\<close>

subsection \<open>Queue\<close>

text \<open>
  C10. \<open>peek\<close> returns what the next \<open>dequeue\<close> would return and leaves the queue, and
  so its length, as it was; both return the absent value exactly when the queue is empty.
\<close>

theorem queue_peek_matches_dequeue:
  "fst (queue_peek q) = fst (queue_dequeue q)
   \<and> snd (queue_peek q) = q
   \<and> queue_length (snd (queue_peek q)) = queue_length q
   \<and> (fst (queue_peek q) = None) = queue_isEmpty q
   \<and> (fst (queue_dequeue q) = None) = queue_isEmpty q"
  by (cases q rule: rev_cases)
     (simp_all add: queue_peek_def queue_dequeue_def queue_isEmpty_def queue_length_def
        js_index_def Let_def nth_append)

subsection \<open>PriorityQueue\<close>

lemma lanes_enqueue: "lanes (pq_enqueue x b pq) = spec_enqueue x b (lanes pq)"
  by (simp add: lanes_def pq_enqueue_def queue_enqueue_def)

lemma queue_dequeue_rev:
  "queue_dequeue q = (case rev q of [] \<Rightarrow> (None, q) | x # xs \<Rightarrow> (Some x, rev xs))"
  by (cases q rule: rev_cases) (simp_all add: queue_dequeue_def)

lemma queue_peek_rev:
  "queue_peek q = (case rev q of [] \<Rightarrow> (None, q) | x # xs \<Rightarrow> (Some x, q))"
  by (cases q rule: rev_cases)
     (simp_all add: queue_peek_def js_index_def Let_def nth_append)

lemma queue_isEmpty_rev: "queue_isEmpty q = (rev q = [])"
  by (simp add: queue_isEmpty_def queue_length_def)

lemma pq_dequeue_front: "fst (pq_dequeue pq) = spec_front (lanes pq)"
  by (cases "rev (highPriorityQueue pq)"; cases "rev (lowPriorityQueue pq)")
     (simp_all add: pq_dequeue_def lanes_def queue_dequeue_rev queue_isEmpty_rev)

lemma pq_dequeue_serve: "lanes (snd (pq_dequeue pq)) = spec_serve (lanes pq)"
  by (cases "rev (highPriorityQueue pq)"; cases "rev (lowPriorityQueue pq)")
     (simp_all add: pq_dequeue_def lanes_def queue_dequeue_rev queue_isEmpty_rev)

lemma pq_peek_front: "fst (pq_peek pq) = spec_front (lanes pq)"
  by (cases "rev (highPriorityQueue pq)"; cases "rev (lowPriorityQueue pq)")
     (simp_all add: pq_peek_def lanes_def queue_peek_rev queue_isEmpty_rev)

lemma pq_peek_same: "snd (pq_peek pq) = pq"
  by (simp add: pq_peek_def queue_peek_def Let_def)

lemma pq_length_lanes:
  "pq_length pq = int (length (fst (lanes pq))) + int (length (snd (lanes pq)))"
  by (simp add: pq_length_def queue_length_def lanes_def)

lemma pq_isEmpty_lanes: "pq_isEmpty pq = (lanes pq = ([], []))"
  by (simp add: pq_isEmpty_def queue_isEmpty_rev lanes_def)

text \<open>
  C8. Seen as two lanes of waiting items, oldest first, the priority queue behaves as the
  specification says: \<open>enqueue\<close> appends to the chosen lane, \<open>dequeue\<close> and \<open>peek\<close>
  return the oldest item of the high lane when it is non-empty and of the low lane
  otherwise, \<open>dequeue\<close> removes that item, \<open>peek\<close> changes nothing, \<open>length\<close> is the sum
  of the lanes' lengths and \<open>isEmpty\<close> holds exactly when both lanes are empty.
\<close>

theorem priority_queue_two_lanes:
  "lanes (pq_enqueue x b pq) = spec_enqueue x b (lanes pq)
   \<and> fst (pq_dequeue pq) = spec_front (lanes pq)
   \<and> lanes (snd (pq_dequeue pq)) = spec_serve (lanes pq)
   \<and> fst (pq_peek pq) = spec_front (lanes pq)
   \<and> snd (pq_peek pq) = pq
   \<and> pq_length pq = int (length (fst (lanes pq))) + int (length (snd (lanes pq)))
   \<and> pq_isEmpty pq = (lanes pq = ([], []))"
  by (intro conjI lanes_enqueue pq_dequeue_front pq_dequeue_serve pq_peek_front pq_peek_same
    pq_length_lanes pq_isEmpty_lanes)

subsection \<open>LinkedList: chains in the store\<close>

text \<open>
  A chain that ends in \<open>null\<close> is determined by its start and never meets a node twice;
  the lemmas below say how it reads (\<open>chain_head\<close>, \<open>chain_next\<close>, \<open>chain_last_next\<close>)
  and how it changes under the three assignments to \<open>next\<close> that the methods make:
  cutting it after a node (\<open>pop\<close>), appending a new node (\<open>push\<close>) and skipping a node
  (\<open>delete\<close>).
\<close>

lemma chain_None: "chain h None as = (as = [])"
  by (cases as) auto

lemma chain_unique: "chain h p as \<Longrightarrow> chain h p bs \<Longrightarrow> as = bs"
proof (induction as arbitrary: p bs)
  case Nil
  then show ?case by (cases bs) auto
next
  case (Cons a as)
  then show ?case by (cases bs) auto
qed

lemma chain_append:
  "chain h p (as @ bs) \<Longrightarrow> \<exists>q. chain h q bs"
  by (induction as arbitrary: p) auto

lemma chain_distinct: "chain h p as \<Longrightarrow> distinct as"
proof (induction as arbitrary: p)
  case Nil
  then show ?case by simp
next
  case (Cons a as)
  have "a \<notin> set as"
  proof
    assume "a \<in> set as"
    then obtain xs ys where split: "as = xs @ a # ys"
      by (auto simp: in_set_conv_decomp)
    from Cons.prems have "chain h (next' (h ! a)) (xs @ a # ys)"
      by (simp add: split)
    then obtain q where q: "chain h q (a # ys)"
      using chain_append by blast
    then have "q = Some a" by simp
    with q Cons.prems have "a # ys = a # as"
      using chain_unique by fastforce
    with split show False by simp
  qed
  moreover from Cons have "distinct as" by auto
  ultimately show ?case by simp
qed

lemma chain_last_next:
  "chain h p as \<Longrightarrow> as \<noteq> [] \<Longrightarrow> next' (h ! last as) = None"
  by (induction as arbitrary: p) (auto split: if_splits)

lemma chain_head: "chain h p as \<Longrightarrow> p = (if as = [] then None else Some (hd as))"
  by (cases as) auto

lemma chain_next:
  "chain h p as \<Longrightarrow> Suc i < length as \<Longrightarrow> next' (h ! (as ! i)) = Some (as ! Suc i)"
proof (induction as arbitrary: p i)
  case Nil
  then show ?case by simp
next
  case (Cons a as)
  show ?case
  proof (cases i)
    case 0
    with Cons.prems show ?thesis by (cases as) auto
  next
    case (Suc j)
    with Cons show ?thesis by auto
  qed
qed

lemma set_next_length [simp]: "length (set_next a x h) = length h"
  by (simp add: set_next_def)

lemma set_next_other [simp]: "b \<noteq> a \<Longrightarrow> set_next a x h ! b = h ! b"
  by (simp add: set_next_def)

lemma set_next_same [simp]: "a < length h \<Longrightarrow> next' (set_next a x h ! a) = x"
  by (simp add: set_next_def)

lemma chain_set_next_other:
  "a \<notin> set as \<Longrightarrow> chain (set_next a x h) p as = chain h p as"
  by (induction as arbitrary: p) auto

lemma chain_cut:
  "chain h p (xs @ a # ys) \<Longrightarrow> a \<notin> set xs \<Longrightarrow> chain (set_next a None h) p (xs @ [a])"
  by (induction xs arbitrary: p) auto

lemma chain_extend:
  "chain h p (xs @ [t]) \<Longrightarrow> t \<notin> set xs \<Longrightarrow>
   chain (set_next t (Some (length h)) (h @ [createNode v])) p (xs @ [t, length h])"
proof (induction xs arbitrary: p)
  case Nil
  then show ?case by (simp add: nth_append createNode_def set_next_def)
next
  case (Cons x xs)
  then show ?case by (auto simp: nth_append)
qed

lemma chain_splice:
  "chain h p (xs @ a # c # ys) \<Longrightarrow>
   chain (set_next a (next' (h ! c)) h) p (xs @ a # ys)"
proof (induction xs arbitrary: p)
  case Nil
  then have "chain h p (a # c # ys)" by simp
  from chain_distinct [OF this] have "a \<notin> set ys" by simp
  with Nil show ?case by (simp add: chain_set_next_other)
next
  case (Cons x xs)
  from chain_distinct [OF Cons.prems] have "x \<noteq> a" by auto
  with Cons show ?case by simp
qed

subsection \<open>LinkedList: the invariants of a well-formed list\<close>

lemma follow_None: "(follow h ^^ k) None = None"
  by (induction k) (simp_all add: follow_def)

lemma follow_chain:
  "chain h p as \<Longrightarrow> (follow h ^^ n) p = (if n < length as then Some (as ! n) else None)"
proof (induction n arbitrary: p as)
  case 0
  then show ?case by (cases as) auto
next
  case (Suc n)
  show ?case
  proof (cases as)
    case Nil
    with Suc.prems have "p = None" by simp
    then show ?thesis using Nil by (simp only: follow_None) simp
  next
    case (Cons a bs)
    with Suc.prems have p: "p = Some a" and rest: "chain h (next' (h ! a)) bs" by auto
    have "(follow h ^^ Suc n) p = (follow h ^^ n) (follow h p)"
      by (simp add: funpow_swap1)
    also have "follow h p = next' (h ! a)" by (simp add: p follow_def)
    also have "(follow h ^^ n) (next' (h ! a)) = (if n < length bs then Some (bs ! n) else None)"
      using Suc.IH [OF rest] .
    finally show ?thesis using Cons by simp
  qed
qed

text \<open>A well-formed list satisfies the invariants of the specification.\<close>

lemma well_formed_invariants:
  assumes "well_formed s as"
  shows "I1 s \<and> I2 s \<and> I3 s \<and> I4 s \<and> distinct as"
proof -
  from assms have ch: "chain (heap s) (head s) as" and len: "length' s = int (length as)"
    and tl: "tail s = (if as = [] then None else Some (last as))"
    by (simp_all add: well_formed_def)
  have hd: "head s = (if as = [] then None else Some (hd as))"
    using ch by (rule chain_head)
  have "I1 s" using hd tl len by (simp add: I1_def)
  moreover have "I2 s"
  proof (cases as)
    case Nil
    then show ?thesis using len by (simp add: I2_def)
  next
    case (Cons a bs)
    then show ?thesis using hd tl len by (cases bs) (simp_all add: I2_def)
  qed
  moreover have "I3 s"
  proof (cases "as = []")
    case True
    then show ?thesis using hd tl len by (simp add: I3_def)
  next
    case False
    then have "as ! (length as - 1) = last as" by (simp add: last_conv_nth)
    then show ?thesis using False tl len follow_chain [OF ch] by (simp add: I3_def)
  qed
  moreover have "I4 s"
    using tl chain_last_next [OF ch] by (simp add: I4_def)
  ultimately show ?thesis using chain_distinct [OF ch] by simp
qed

lemma well_formed_create: "well_formed createLinkedList []"
  by (simp add: well_formed_def createLinkedList_def)

subsection \<open>LinkedList: push\<close>

lemma push_well_formed:
  assumes "well_formed s as"
  shows "\<exists>s'. push v s = Inr (length (heap s), s')
              \<and> well_formed s' (as @ [length (heap s)])"
proof -
  from assms have ch: "chain (heap s) (head s) as" and len: "length' s = int (length as)"
    and tl: "tail s = (if as = [] then None else Some (last as))"
    by (simp_all add: well_formed_def)
  have hd: "head s = (if as = [] then None else Some (hd as))"
    using ch by (rule chain_head)
  show ?thesis
  proof (cases as rule: rev_cases)
    case Nil
    with hd tl len show ?thesis
      by (simp add: push_def well_formed_def Let_def createNode_def)
  next
    case (snoc xs t)
    from chain_distinct [OF ch] snoc have notin: "t \<notin> set xs" by simp
    from ch snoc have "chain (heap s) (head s) (xs @ [t])" by simp
    from chain_extend [OF this notin, of v]
    have "chain (set_next t (Some (length (heap s))) (heap s @ [createNode v])) (head s)
            (as @ [length (heap s)])"
      using snoc by simp
    with snoc hd tl len show ?thesis
      by (simp add: push_def well_formed_def Let_def)
  qed
qed

lemma push_length:
  "push v s = Inr (node, s') \<Longrightarrow> length' s' = length' s + 1"
  by (auto simp: push_def Let_def split: if_splits option.splits)

subsection \<open>LinkedList: pop\<close>

text \<open>
  On a chain of at least two nodes the search loop of \<open>pop\<close> returns, with the node before
  the last.
\<close>

lemma find_penultimate_chain:
  "chain h p (xs @ [pen, t]) \<Longrightarrow> t \<notin> set xs \<Longrightarrow> t \<noteq> pen \<Longrightarrow>
   find_penultimate h (Some t) p = Some (Some pen)"
proof (induction xs arbitrary: p)
  case Nil
  then show ?case by (subst find_penultimate.simps) simp
next
  case (Cons x xs)
  from Cons.prems have p: "p = Some x" and rest: "chain h (next' (h ! x)) (xs @ [pen, t])"
    by auto
  from rest have nxt: "next' (h ! x) = Some (hd (xs @ [pen, t]))"
    by (cases xs) auto
  from Cons.prems have "hd (xs @ [pen, t]) \<noteq> t"
    by (cases xs) auto
  with nxt have "next' (h ! x) \<noteq> Some t" by simp
  moreover from Cons.prems have "find_penultimate h (Some t) (next' (h ! x)) = Some (Some pen)"
    using Cons.IH [OF rest] by simp
  ultimately show ?case
    by (subst find_penultimate.simps) (simp add: p)
qed

lemma last_two_cases:
  obtains (empty) "as = []" | (one) a where "as = [a]"
  | (many) xs pen t where "as = xs @ [pen, t]"
proof (cases as rule: rev_cases)
  case Nil
  then show ?thesis using empty by simp
next
  case (snoc ys t)
  then show ?thesis using one many by (cases ys rule: rev_cases) auto
qed

lemma pop_empty:
  "well_formed s [] \<Longrightarrow> pop s = Some (Inr (None, s))"
  by (simp add: pop_def isEmpty_def well_formed_def)

lemma pop_one:
  "well_formed s [a] \<Longrightarrow>
   pop s = Some (Inr (Some a, s\<lparr>head := None, tail := None, length' := 0\<rparr>))"
  by (simp add: pop_def isEmpty_def well_formed_def)

lemma pop_many:
  assumes "well_formed s (xs @ [pen, t])"
  shows "pop s = Some (Inr (Some t, s\<lparr>heap := set_next pen None (heap s), tail := Some pen,
                                     length' := length' s - 1\<rparr>))"
    and "well_formed (s\<lparr>heap := set_next pen None (heap s), tail := Some pen,
                        length' := length' s - 1\<rparr>) (xs @ [pen])"
    and "next' (heap s ! pen) = Some t"
proof -
  from assms have ch: "chain (heap s) (head s) (xs @ [pen, t])"
    and len: "length' s = int (length (xs @ [pen, t]))" and t: "tail s = Some t"
    by (simp_all add: well_formed_def)
  have hd: "head s = Some (hd (xs @ [pen, t]))"
    using chain_head [OF ch] by simp
  from chain_distinct [OF ch]
  have notin: "t \<notin> set xs" and ne: "t \<noteq> pen" and pnotin: "pen \<notin> set xs"
    by auto
  from hd notin ne have hne: "head s \<noteq> tail s"
    by (cases xs) (auto simp: t)
  have found: "find_penultimate (heap s) (tail s) (head s) = Some (Some pen)"
    using find_penultimate_chain [OF ch notin ne] by (simp add: t)
  from len have "length' s \<noteq> 0" by simp
  with found hne t
  show "pop s = Some (Inr (Some t, s\<lparr>heap := set_next pen None (heap s), tail := Some pen,
                                     length' := length' s - 1\<rparr>))"
    by (simp add: pop_def isEmpty_def Let_def)
  have "chain (set_next pen None (heap s)) (head s) (xs @ [pen])"
    using chain_cut [of "heap s" "head s" xs pen "[t]"] ch pnotin by simp
  with len
  show "well_formed (s\<lparr>heap := set_next pen None (heap s), tail := Some pen,
                        length' := length' s - 1\<rparr>) (xs @ [pen])"
    by (simp add: well_formed_def)
  show "next' (heap s ! pen) = Some t"
    using chain_next [OF ch, of "length xs"] by (simp add: nth_append)
qed

lemma pop_well_formed:
  assumes "well_formed s as"
  shows "\<exists>r s'. pop s = Some (Inr (r, s')) \<and> well_formed s' (butlast as)"
proof (cases as rule: last_two_cases)
  case empty
  with assms pop_empty [of s] show ?thesis by simp
next
  case (one a)
  with assms pop_one [of s a] show ?thesis
    by (simp add: well_formed_def)
next
  case (many xs pen t)
  with assms pop_many(1,2) [of s xs pen t] show ?thesis
    by (simp add: butlast_append)
qed

lemma pop_length:
  "pop s = Some (Inr (Some node, s')) \<Longrightarrow> length' s' = length' s - 1"
  by (auto simp: pop_def Let_def split: if_splits option.splits)

text \<open>
  On a well-formed list with nodes \<open>as\<close>: \<open>pop\<close> of the empty list returns \<open>null\<close> and the
  list as it was; \<open>pop\<close> of a list of length 1 returns its only node and sets \<open>head\<close> and
  \<open>tail\<close> to \<open>null\<close> and \<open>length\<close> to 0; \<open>pop\<close> of a longer list returns the node that was
  the tail, sets \<open>next\<close> of the penultimate node (the node whose \<open>next\<close> was the tail) to
  \<open>null\<close>, makes it the tail and takes 1 from \<open>length\<close>. Whatever \<open>pop\<close> returns, the list
  it leaves is well-formed, with the nodes \<open>as\<close> less the last.
\<close>

lemma pop_on_well_formed:
  assumes "well_formed s as"
  shows "(length' s = 0 \<longrightarrow> pop s = Some (Inr (None, s)))
         \<and> (length' s = 1 \<longrightarrow>
              pop s = Some (Inr (head s, s\<lparr>head := None, tail := None, length' := 0\<rparr>))
              \<and> head s = Some (hd as))
         \<and> (2 \<le> length' s \<longrightarrow>
              pop s = Some (Inr (tail s,
                        s\<lparr>heap := set_next (as ! (length as - 2)) None (heap s),
                          tail := Some (as ! (length as - 2)),
                          length' := length' s - 1\<rparr>))
              \<and> tail s = Some (last as)
              \<and> next' (heap s ! (as ! (length as - 2))) = tail s)
         \<and> (\<forall>r s'. pop s = Some (Inr (r, s')) \<longrightarrow> well_formed s' (butlast as))"
proof (cases as rule: last_two_cases)
  case empty
  with assms have "length' s = 0" and "pop s = Some (Inr (None, s))"
    by (simp_all add: pop_empty) (simp add: well_formed_def)
  with assms empty show ?thesis by simp
next
  case (one a)
  with assms have "length' s = 1" and "head s = Some a"
    and "pop s = Some (Inr (Some a, s\<lparr>head := None, tail := None, length' := 0\<rparr>))"
    by (simp_all add: pop_one) (simp_all add: well_formed_def)
  with one show ?thesis by (simp add: well_formed_def)
next
  case (many xs pen t)
  with assms have wf: "well_formed s (xs @ [pen, t])" by simp
  from wf have len: "2 \<le> length' s" and t: "tail s = Some t"
    by (simp_all add: well_formed_def)
  from many have pen: "as ! (length as - 2) = pen" and bl: "butlast as = xs @ [pen]"
    and la: "last as = t"
    by (simp_all add: nth_append butlast_append)
  from pop_many [OF wf] len t show ?thesis
    by (simp add: pen bl la)
qed

lemma pop_on_well_formed_example:
  "well_formed
     \<lparr>heap = [\<lparr>value' = ''a'', next' = Some 1\<rparr>, \<lparr>value' = ''b'', next' = Some 2\<rparr>,
              \<lparr>value' = ''c'', next' = None\<rparr>],
      head = Some 0, tail = Some 2, length' = 3\<rparr> [0, 1, 2]
   \<and> pop \<lparr>heap = [\<lparr>value' = ''a'', next' = Some 1\<rparr>, \<lparr>value' = ''b'', next' = Some 2\<rparr>,
              \<lparr>value' = ''c'', next' = None\<rparr>],
      head = Some 0, tail = Some 2, length' = 3\<rparr>
     = Some (Inr (Some 2,
         \<lparr>heap = [\<lparr>value' = ''a'', next' = Some 1\<rparr>, \<lparr>value' = ''b'', next' = None\<rparr>,
                  \<lparr>value' = ''c'', next' = None\<rparr>],
          head = Some 0, tail = Some 1, length' = 2\<rparr>))
   \<and> well_formed
       \<lparr>heap = [\<lparr>value' = ''a'', next' = Some 1\<rparr>, \<lparr>value' = ''b'', next' = None\<rparr>,
                \<lparr>value' = ''c'', next' = None\<rparr>],
        head = Some 0, tail = Some 1, length' = 2\<rparr> [0, 1]"
proof -
  let ?s = "\<lparr>heap = [\<lparr>value' = ''a'', next' = Some 1\<rparr>, \<lparr>value' = ''b'', next' = Some 2\<rparr>,
              \<lparr>value' = ''c'', next' = None\<rparr>],
      head = Some (0::nat), tail = Some (2::nat), length' = 3\<rparr>"
  have wf: "well_formed ?s [0, 1, 2]"
    by (simp add: well_formed_def)
  from pop_on_well_formed [OF wf] have p: "pop ?s = Some (Inr (Some 2,
         \<lparr>heap = [\<lparr>value' = ''a'', next' = Some 1\<rparr>, \<lparr>value' = ''b'', next' = None\<rparr>,
                  \<lparr>value' = ''c'', next' = None\<rparr>],
          head = Some 0, tail = Some 1, length' = 2\<rparr>))"
    by (simp add: set_next_def)
  with pop_on_well_formed [OF wf] have "well_formed
       \<lparr>heap = [\<lparr>value' = ''a'', next' = Some 1\<rparr>, \<lparr>value' = ''b'', next' = None\<rparr>,
                \<lparr>value' = ''c'', next' = None\<rparr>],
        head = Some 0, tail = Some 1, length' = 2\<rparr> [0, 1]"
    by simp
  with wf p show ?thesis by simp
qed

text \<open>
  C5. \<open>pop\<close> relies on \<open>tail\<close> being the last node, which \<open>delete\<close> does not maintain.
  After \<open>push(v); push(w); delete(1)\<close> the list has \<open>length = 1\<close>, its only node is the
  head, and \<open>tail\<close> still refers to the removed node: \<open>pop\<close> finds \<open>head !== tail\<close>, its
  search loop finds no node whose \<open>next\<close> is the tail, and \<open>penultimate.next = null\<close>
  throws a \<open>TypeError\<close> instead of returning the only node. After \<open>push(v); push(w);
  push(x); delete(2)\<close> the list has \<open>length = 2\<close> and \<open>pop\<close> throws in the same way.
\<close>

theorem pop_after_delete_throws:
  "run toStr [Push v, Push w, Delete 1] createLinkedList
     = Some \<lparr>heap = [\<lparr>value' = v, next' = None\<rparr>, \<lparr>value' = w, next' = None\<rparr>],
             head = Some 0, tail = Some 1, length' = 1\<rparr>
   \<and> pop \<lparr>heap = [\<lparr>value' = v, next' = None\<rparr>, \<lparr>value' = w, next' = None\<rparr>],
           head = Some 0, tail = Some 1, length' = 1\<rparr> = Some (Inl TypeError)
   \<and> run toStr [Push v, Push w, Push x, Delete 2] createLinkedList
     = Some \<lparr>heap = [\<lparr>value' = v, next' = Some 1\<rparr>, \<lparr>value' = w, next' = None\<rparr>,
                     \<lparr>value' = x, next' = None\<rparr>],
             head = Some 0, tail = Some 2, length' = 2\<rparr>
   \<and> pop \<lparr>heap = [\<lparr>value' = v, next' = Some 1\<rparr>, \<lparr>value' = w, next' = None\<rparr>,
                   \<lparr>value' = x, next' = None\<rparr>],
           head = Some 0, tail = Some 2, length' = 2\<rparr> = Some (Inl TypeError)"
proof -
  have r1: "run toStr [Push v, Push w, Delete 1] createLinkedList
     = Some \<lparr>heap = [\<lparr>value' = v, next' = None\<rparr>, \<lparr>value' = w, next' = None\<rparr>],
             head = Some 0, tail = Some 1, length' = 1\<rparr>"
    by (simp add: push_def createLinkedList_def createNode_def delete_def set_next_def
        after_def Let_def)
  have f0: "find_penultimate h t None = Some None" for h :: "'a INode list" and t
    by (subst find_penultimate.simps) simp
  have f1: "find_penultimate [\<lparr>value' = v, next' = None\<rparr>, \<lparr>value' = w, next' = None\<rparr>]
              (Some 1) (Some 0) = Some None"
    by (subst find_penultimate.simps) (simp add: f0)
  have p1: "pop \<lparr>heap = [\<lparr>value' = v, next' = None\<rparr>, \<lparr>value' = w, next' = None\<rparr>],
           head = Some 0, tail = Some 1, length' = 1\<rparr> = Some (Inl TypeError)"
    using f1 by (simp add: pop_def isEmpty_def)
  have r2: "run toStr [Push v, Push w, Push x, Delete 2] createLinkedList
     = Some \<lparr>heap = [\<lparr>value' = v, next' = Some 1\<rparr>, \<lparr>value' = w, next' = None\<rparr>,
                     \<lparr>value' = x, next' = None\<rparr>],
             head = Some 0, tail = Some 2, length' = 2\<rparr>"
    by (simp add: push_def createLinkedList_def createNode_def delete_def set_next_def
        after_def Let_def eval_nat_numeral)
  have f2: "find_penultimate [\<lparr>value' = v, next' = Some 1\<rparr>, \<lparr>value' = w, next' = None\<rparr>,
                     \<lparr>value' = x, next' = None\<rparr>] (Some 2) (Some 1) = Some None"
    by (subst find_penultimate.simps) (simp add: f0)
  have f3: "find_penultimate [\<lparr>value' = v, next' = Some 1\<rparr>, \<lparr>value' = w, next' = None\<rparr>,
                     \<lparr>value' = x, next' = None\<rparr>] (Some 2) (Some 0) = Some None"
    using f2 by (subst find_penultimate.simps) simp
  have p2: "pop \<lparr>heap = [\<lparr>value' = v, next' = Some 1\<rparr>, \<lparr>value' = w, next' = None\<rparr>,
                   \<lparr>value' = x, next' = None\<rparr>],
           head = Some 0, tail = Some 2, length' = 2\<rparr> = Some (Inl TypeError)"
    using f3 by (simp add: pop_def isEmpty_def)
  from r1 p1 r2 p2 show ?thesis by (intro conjI)
qed

subsection \<open>LinkedList: get\<close>

lemma walk_chain:
  "chain h p as \<Longrightarrow> n \<le> length as \<Longrightarrow>
   walk h n p = Inr (if n < length as then Some (as ! n) else None)"
proof (induction as arbitrary: p n)
  case Nil
  then show ?case by simp
next
  case (Cons a as)
  show ?case
  proof (cases n)
    case 0
    with Cons.prems show ?thesis by simp
  next
    case (Suc m)
    with Cons show ?thesis by auto
  qed
qed

text \<open>
  On a well-formed list, \<open>get\<close> with an index below 0 or at or beyond \<open>length\<close> returns
  \<open>null\<close>, and with an index in range returns the node reached from \<open>head\<close> in \<open>index\<close>
  steps along \<open>next\<close>, which is the node at that position; in both cases the list and the
  store are returned as they were. At \<open>index = length\<close> the guard \<open>index > this.length\<close>
  lets the call through, and it returns \<open>null\<close> because the walk ends one step past the
  tail.
\<close>

lemma get_on_well_formed:
  assumes "well_formed s as"
  shows "(index < 0 \<or> length' s \<le> index \<longrightarrow> get index s = Inr (None, s))
         \<and> (0 \<le> index \<and> index < length' s \<longrightarrow>
              get index s = Inr ((follow (heap s) ^^ nat index) (head s), s)
              \<and> (follow (heap s) ^^ nat index) (head s) = Some (as ! nat index))"
proof -
  from assms have ch: "chain (heap s) (head s) as" and len: "length' s = int (length as)"
    by (simp_all add: well_formed_def)
  have hd: "head s = (if as = [] then None else Some (hd as))"
    using ch by (rule chain_head)
  have out: "get index s = Inr (None, s)" if "index < 0 \<or> length' s \<le> index"
  proof (cases "index < 0 \<or> length' s < index")
    case True
    then show ?thesis by (auto simp: get_def)
  next
    case False
    with that have eq: "index = length' s" by auto
    show ?thesis
    proof (cases "index = 0")
      case True
      with eq len hd show ?thesis by (simp add: get_def)
    next
      case False
      have "walk (heap s) (nat index) (head s) = Inr None"
        using walk_chain [OF ch, of "nat index"] eq len by simp
      with False eq show ?thesis by (simp add: get_def)
    qed
  qed
  have inr: "get index s = Inr ((follow (heap s) ^^ nat index) (head s), s)
             \<and> (follow (heap s) ^^ nat index) (head s) = Some (as ! nat index)"
    if "0 \<le> index \<and> index < length' s"
  proof -
    from that len have n: "nat index < length as" by auto
    have f: "(follow (heap s) ^^ nat index) (head s) = Some (as ! nat index)"
      using follow_chain [OF ch, of "nat index"] n by simp
    show ?thesis
    proof (cases "index = 0")
      case True
      with that f show ?thesis by (simp add: get_def)
    next
      case False
      have "walk (heap s) (nat index) (head s) = Inr (Some (as ! nat index))"
        using walk_chain [OF ch, of "nat index"] n by simp
      with False that f show ?thesis by (simp add: get_def)
    qed
  qed
  from out inr show ?thesis by blast
qed

lemma get_on_well_formed_example:
  "well_formed
     \<lparr>heap = [\<lparr>value' = ''a'', next' = Some 1\<rparr>, \<lparr>value' = ''b'', next' = Some 2\<rparr>,
              \<lparr>value' = ''c'', next' = None\<rparr>],
      head = Some 0, tail = Some 2, length' = 3\<rparr> [0, 1, 2]
   \<and> get 1 \<lparr>heap = [\<lparr>value' = ''a'', next' = Some 1\<rparr>, \<lparr>value' = ''b'', next' = Some 2\<rparr>,
              \<lparr>value' = ''c'', next' = None\<rparr>],
      head = Some 0, tail = Some 2, length' = 3\<rparr>
     = Inr (Some 1, \<lparr>heap = [\<lparr>value' = ''a'', next' = Some 1\<rparr>, \<lparr>value' = ''b'', next' = Some 2\<rparr>,
              \<lparr>value' = ''c'', next' = None\<rparr>],
      head = Some 0, tail = Some 2, length' = 3\<rparr>)
   \<and> get 3 \<lparr>heap = [\<lparr>value' = ''a'', next' = Some 1\<rparr>, \<lparr>value' = ''b'', next' = Some 2\<rparr>,
              \<lparr>value' = ''c'', next' = None\<rparr>],
      head = Some 0, tail = Some 2, length' = 3\<rparr>
     = Inr (None, \<lparr>heap = [\<lparr>value' = ''a'', next' = Some 1\<rparr>, \<lparr>value' = ''b'', next' = Some 2\<rparr>,
              \<lparr>value' = ''c'', next' = None\<rparr>],
      head = Some 0, tail = Some 2, length' = 3\<rparr>)"
proof -
  let ?s = "\<lparr>heap = [\<lparr>value' = ''a'', next' = Some 1\<rparr>, \<lparr>value' = ''b'', next' = Some 2\<rparr>,
              \<lparr>value' = ''c'', next' = None\<rparr>],
      head = Some (0::nat), tail = Some (2::nat), length' = 3\<rparr>"
  have wf: "well_formed ?s [0, 1, 2]"
    by (simp add: well_formed_def)
  from get_on_well_formed [OF wf, of 1] have "get 1 ?s = Inr (Some 1, ?s)"
    by (simp add: follow_def)
  moreover from get_on_well_formed [OF wf, of 3] have "get 3 ?s = Inr (None, ?s)"
    by simp
  ultimately show ?thesis using wf by simp
qed

text \<open>
  C6. \<open>get\<close> walks \<open>index\<close> steps whenever \<open>index <= length\<close>, and \<open>length\<close> may exceed the
  number of nodes on the chain once \<open>delete\<close> has left \<open>tail\<close> behind. After \<open>push(a);
  push(b); delete(1); push(c)\<close> the list has \<open>length = 2\<close> and one node on its chain:
  \<open>get(2)\<close>, with \<open>index = length\<close>, passes the guard and throws a \<open>TypeError\<close> at
  \<open>current.next\<close> instead of returning \<open>null\<close>. After one more \<open>push(d)\<close>, \<open>length = 3\<close>
  and \<open>get(2)\<close>, in range, throws in the same way.
\<close>

theorem get_after_delete_throws:
  "run toStr [Push a, Push b, Delete 1, Push c] createLinkedList
     = Some \<lparr>heap = [\<lparr>value' = a, next' = None\<rparr>, \<lparr>value' = b, next' = Some 2\<rparr>,
                     \<lparr>value' = c, next' = None\<rparr>],
             head = Some 0, tail = Some 2, length' = 2\<rparr>
   \<and> get 2 \<lparr>heap = [\<lparr>value' = a, next' = None\<rparr>, \<lparr>value' = b, next' = Some 2\<rparr>,
                     \<lparr>value' = c, next' = None\<rparr>],
             head = Some 0, tail = Some 2, length' = 2\<rparr> = Inl TypeError
   \<and> run toStr [Push a, Push b, Delete 1, Push c, Push d] createLinkedList
     = Some \<lparr>heap = [\<lparr>value' = a, next' = None\<rparr>, \<lparr>value' = b, next' = Some 2\<rparr>,
                     \<lparr>value' = c, next' = Some 3\<rparr>, \<lparr>value' = d, next' = None\<rparr>],
             head = Some 0, tail = Some 3, length' = 3\<rparr>
   \<and> get 2 \<lparr>heap = [\<lparr>value' = a, next' = None\<rparr>, \<lparr>value' = b, next' = Some 2\<rparr>,
                     \<lparr>value' = c, next' = Some 3\<rparr>, \<lparr>value' = d, next' = None\<rparr>],
             head = Some 0, tail = Some 3, length' = 3\<rparr> = Inl TypeError"
  by (simp add: push_def createLinkedList_def createNode_def delete_def get_def set_next_def
      after_def Let_def eval_nat_numeral)

subsection \<open>LinkedList: delete\<close>

lemma walk_previous_chain:
  "chain h p as \<Longrightarrow> n \<le> length as \<Longrightarrow>
   walk_previous h n previous p =
     Inr (if n = 0 then previous else Some (as ! (n - 1)),
          if n < length as then Some (as ! n) else None)"
proof (induction as arbitrary: p n previous)
  case Nil
  then show ?case by simp
next
  case (Cons a as)
  show ?case
  proof (cases n)
    case 0
    with Cons.prems show ?thesis by simp
  next
    case (Suc m)
    with Cons show ?thesis
      by (cases m) (auto dest: chain_head simp: hd_conv_nth)
  qed
qed

text \<open>
  \<open>delete\<close> on a well-formed list, by the position of the index: outside \<open>0 .. length\<close>
  it returns \<open>null\<close>; at \<open>length\<close> it throws; at 0 it moves \<open>head\<close>; in between it
  splices. Where the removed node is not the tail the list stays well-formed.
\<close>

lemma delete_out_of_range:
  "index < 0 \<or> length' s < index \<Longrightarrow> delete index s = Inr (None, s)"
  by (auto simp: delete_def)

lemma delete_at_length:
  assumes "well_formed s as"
  shows "delete (length' s) s = Inl TypeError"
proof -
  from assms have ch: "chain (heap s) (head s) as" and len: "length' s = int (length as)"
    by (simp_all add: well_formed_def)
  have hd: "head s = (if as = [] then None else Some (hd as))"
    using ch by (rule chain_head)
  show ?thesis
  proof (cases "as = []")
    case True
    with len hd show ?thesis by (simp add: delete_def)
  next
    case False
    have "walk_previous (heap s) (length as) None (head s)
            = Inr (Some (as ! (length as - 1)), None)"
      using walk_previous_chain [OF ch, of "length as" None] False by simp
    with False len show ?thesis by (simp add: delete_def)
  qed
qed

lemma delete_head:
  assumes "well_formed s (a # as)"
  shows "delete 0 s = Inr (Some a, s\<lparr>head := next' (heap s ! a), length' := length' s - 1\<rparr>)"
  using assms by (simp add: well_formed_def delete_def)

lemma delete_inner:
  assumes "well_formed s as" and "0 < index" and "index < length' s"
  shows "delete index s =
           Inr (Some (as ! nat index),
                s\<lparr>heap := set_next (as ! (nat index - 1)) (next' (heap s ! (as ! nat index)))
                            (heap s),
                  length' := length' s - 1\<rparr>)"
proof -
  from assms have ch: "chain (heap s) (head s) as" and len: "length' s = int (length as)"
    by (simp_all add: well_formed_def)
  from assms len have n: "nat index < length as" "nat index \<noteq> 0" by auto
  have "walk_previous (heap s) (nat index) None (head s)
          = Inr (Some (as ! (nat index - 1)), Some (as ! nat index))"
    using walk_previous_chain [OF ch, of "nat index" None] n by simp
  with assms show ?thesis by (simp add: delete_def)
qed

lemma delete_length:
  "delete i s = Inr (Some node, s') \<Longrightarrow> length' s' = length' s - 1"
  by (auto simp: delete_def split: if_splits option.splits sum.splits)

lemma delete_head_well_formed:
  assumes "well_formed s (a # b # as)"
  shows "\<exists>s'. delete 0 s = Inr (Some a, s') \<and> well_formed s' (b # as)"
  using assms by (simp add: well_formed_def delete_def)

lemma delete_inner_well_formed:
  assumes "well_formed s (xs @ a # c # y # ys)"
  shows "\<exists>s'. delete (int (length xs) + 1) s = Inr (Some c, s')
              \<and> well_formed s' (xs @ a # y # ys)"
proof -
  let ?as = "xs @ a # c # y # ys"
  let ?i = "int (length xs) + 1"
  from assms have ch: "chain (heap s) (head s) ?as" and len: "length' s = int (length ?as)"
    and tl: "tail s = Some (last ?as)"
    by (simp_all add: well_formed_def)
  have i: "0 < ?i" "?i < length' s" using len by simp_all
  have n: "nat ?i = Suc (length xs)" by simp
  have "delete ?i s = Inr (Some (?as ! nat ?i),
          s\<lparr>heap := set_next (?as ! (nat ?i - 1)) (next' (heap s ! (?as ! nat ?i))) (heap s),
            length' := length' s - 1\<rparr>)"
    using assms i by (rule delete_inner)
  then have d: "delete ?i s = Inr (Some c,
          s\<lparr>heap := set_next a (next' (heap s ! c)) (heap s), length' := length' s - 1\<rparr>)"
    by (simp add: n nth_append)
  have "chain (set_next a (next' (heap s ! c)) (heap s)) (head s) (xs @ a # y # ys)"
    using ch by (rule chain_splice)
  with len tl have "well_formed
      (s\<lparr>heap := set_next a (next' (heap s ! c)) (heap s), length' := length' s - 1\<rparr>)
      (xs @ a # y # ys)"
    by (simp add: well_formed_def)
  with d show ?thesis by simp
qed

text \<open>
  C2. \<open>delete\<close> with \<open>index = length\<close> passes the bounds check \<open>index > this.length\<close> and
  throws a \<open>TypeError\<close>: on the list made by one \<open>push\<close>, \<open>delete(1)\<close> walks to \<open>null\<close> and
  reads \<open>current.next\<close>; on the empty list, \<open>delete(0)\<close> reads \<open>this.head.next\<close>.
\<close>

theorem delete_at_length_throws:
  "push v createLinkedList
     = Inr (0, \<lparr>heap = [\<lparr>value' = v, next' = None\<rparr>], head = Some 0, tail = Some 0,
                 length' = 1\<rparr>)
   \<and> delete 1 \<lparr>heap = [\<lparr>value' = v, next' = None\<rparr>], head = Some 0, tail = Some 0,
                 length' = 1\<rparr> = Inl TypeError
   \<and> delete 0 \<lparr>heap = [] :: 'a INode list, head = None, tail = None, length' = 0\<rparr>
       = Inl TypeError"
  by (simp add: push_def createLinkedList_def createNode_def delete_def Let_def)

text \<open>
  C3. \<open>delete(0)\<close> on the list made by one \<open>push\<close> returns the only node and sets \<open>head\<close>
  to \<open>null\<close> and \<open>length\<close> to 0, but \<open>tail\<close> still refers to the removed node.
\<close>

theorem delete_sole_node_keeps_tail:
  "well_formed \<lparr>heap = [\<lparr>value' = v, next' = None\<rparr>], head = Some 0, tail = Some 0,
                 length' = 1\<rparr> [0]
   \<and> delete 0 \<lparr>heap = [\<lparr>value' = v, next' = None\<rparr>], head = Some 0, tail = Some 0,
                 length' = 1\<rparr>
       = Inr (Some 0, \<lparr>heap = [\<lparr>value' = v, next' = None\<rparr>], head = None, tail = Some 0,
                        length' = 0\<rparr>)"
  by (simp add: well_formed_def delete_def)

text \<open>
  C4. \<open>delete(1)\<close> on the list made by two calls of \<open>push\<close> removes the tail node: it
  returns it and sets \<open>next\<close> of the first node to \<open>null\<close>, but \<open>tail\<close> still refers to the
  removed node and not to the first node.
\<close>

theorem delete_last_keeps_tail:
  "pushes [v, w] createLinkedList
     = Inr \<lparr>heap = [\<lparr>value' = v, next' = Some 1\<rparr>, \<lparr>value' = w, next' = None\<rparr>],
            head = Some 0, tail = Some 1, length' = 2\<rparr>
   \<and> delete 1 \<lparr>heap = [\<lparr>value' = v, next' = Some 1\<rparr>, \<lparr>value' = w, next' = None\<rparr>],
                head = Some 0, tail = Some 1, length' = 2\<rparr>
       = Inr (Some 1, \<lparr>heap = [\<lparr>value' = v, next' = None\<rparr>, \<lparr>value' = w, next' = None\<rparr>],
                        head = Some 0, tail = Some 1, length' = 1\<rparr>)"
  by (simp add: push_def createLinkedList_def createNode_def delete_def set_next_def Let_def)

subsection \<open>LinkedList: print\<close>

lemma collect_values_chain:
  "chain h p as \<Longrightarrow> collect_values h p acc = Some (acc @ map (\<lambda>a. value' (h ! a)) as)"
proof (induction as arbitrary: p acc)
  case Nil
  then show ?case by (subst collect_values.simps) simp
next
  case (Cons a as)
  then show ?case by (subst collect_values.simps) auto
qed

text \<open>
  \<open>join\<close> puts the separator between consecutive strings and nowhere else: the result is
  the first string followed by each further string with the separator before it.
\<close>

lemma join_concat:
  "join sep (x # xs) = x @ concat (map (\<lambda>y. sep @ y) xs)"
  by (induction xs arbitrary: x) simp_all

text \<open>
  C9. Whenever the chain from \<open>head\<close> ends, \<open>print\<close> returns the string of the first
  node's value followed, for each further node in chain order, by \<open>" => "\<close> and the string
  of that node's value (the empty string for an empty list), and returns the list and the
  store as they were; a second call right after returns the same string.
\<close>

theorem print_spec:
  assumes "chain (heap s) (head s) as"
  shows "print toStr s =
           Some ((case map (\<lambda>a. toStr (value' (heap s ! a))) as of
                    [] \<Rightarrow> []
                  | x # xs \<Rightarrow> x @ concat (map (\<lambda>y. '' => '' @ y) xs)), s)
         \<and> (\<forall>r s'. print toStr s = Some (r, s') \<longrightarrow> s' = s \<and> print toStr s' = Some (r, s'))"
proof -
  let ?strs = "map (\<lambda>a. toStr (value' (heap s ! a))) as"
  have "collect_values (heap s) (head s) [] = Some (map (\<lambda>a. value' (heap s ! a)) as)"
    using collect_values_chain [OF assms, of "[]"] by simp
  then have p: "print toStr s = Some (join '' => '' ?strs, s)"
    by (simp add: print_def comp_def)
  have "join '' => '' ?strs =
          (case ?strs of [] \<Rightarrow> [] | x # xs \<Rightarrow> x @ concat (map (\<lambda>y. '' => '' @ y) xs))"
    by (cases ?strs) (simp_all only: join.simps join_concat list.case)
  with p show ?thesis by simp
qed

theorem print_spec_witness:
  "print (\<lambda>x. x) \<lparr>heap = [], head = None, tail = None, length' = 0\<rparr>
     = Some ([], \<lparr>heap = [], head = None, tail = None, length' = 0\<rparr>)
   \<and> print (\<lambda>x. x)
       \<lparr>heap = [\<lparr>value' = ''a'', next' = None\<rparr>], head = Some 0, tail = Some 0, length' = 1\<rparr>
     = Some (''a'',
       \<lparr>heap = [\<lparr>value' = ''a'', next' = None\<rparr>], head = Some 0, tail = Some 0, length' = 1\<rparr>)
   \<and> print (\<lambda>x. x)
       \<lparr>heap = [\<lparr>value' = ''a'', next' = Some 1\<rparr>, \<lparr>value' = ''b'', next' = Some 2\<rparr>,
                \<lparr>value' = ''c'', next' = None\<rparr>],
        head = Some 0, tail = Some 2, length' = 3\<rparr>
     = Some (''a => b => c'',
       \<lparr>heap = [\<lparr>value' = ''a'', next' = Some 1\<rparr>, \<lparr>value' = ''b'', next' = Some 2\<rparr>,
                \<lparr>value' = ''c'', next' = None\<rparr>],
        head = Some 0, tail = Some 2, length' = 3\<rparr>)"
proof -
  let ?s0 = "\<lparr>heap = [] :: string INode list, head = None, tail = None, length' = 0\<rparr>"
  let ?s1 = "\<lparr>heap = [\<lparr>value' = ''a'', next' = None\<rparr>], head = Some (0::nat),
              tail = Some (0::nat), length' = 1\<rparr>"
  let ?s3 = "\<lparr>heap = [\<lparr>value' = ''a'', next' = Some 1\<rparr>, \<lparr>value' = ''b'', next' = Some 2\<rparr>,
                     \<lparr>value' = ''c'', next' = None\<rparr>],
              head = Some (0::nat), tail = Some (2::nat), length' = 3\<rparr>"
  have c0: "chain (heap ?s0) (head ?s0) []" by simp
  have c1: "chain (heap ?s1) (head ?s1) [0]" by simp
  have c3: "chain (heap ?s3) (head ?s3) [0, 1, 2]" by simp
  from print_spec [OF c0, of "\<lambda>x. x"] have p0: "print (\<lambda>x. x) ?s0 = Some ([], ?s0)"
    by simp
  from print_spec [OF c1, of "\<lambda>x. x"] have p1: "print (\<lambda>x. x) ?s1 = Some (''a'', ?s1)"
    by simp
  from print_spec [OF c3, of "\<lambda>x. x"] have p3: "print (\<lambda>x. x) ?s3 = Some (''a => b => c'', ?s3)"
    by simp
  from p0 p1 p3 show ?thesis by (intro conjI)
qed

subsection \<open>LinkedList: what every sequence of calls preserves\<close>

text \<open>
  In a store where \<open>next\<close> only leads forward every chain ends, so the loops of \<open>pop\<close> and
  \<open>print\<close> return; every call keeps \<open>store_ok\<close>, so every sequence of calls on a fresh
  list returns call by call and leaves a list whose chain from \<open>head\<close> ends.
\<close>

lemma forward_iff:
  "forward h = (\<forall>a b. a < length h \<longrightarrow> next' (h ! a) = Some b \<longrightarrow> a < b \<and> b < length h)"
  unfolding forward_def
proof (intro iffI allI impI ballI)
  fix a b
  assume all: "\<forall>a\<in>set [0..<length h].
          case next' (h ! a) of None \<Rightarrow> True | Some b \<Rightarrow> a < b \<and> b < length h"
    and a: "a < length h" and b: "next' (h ! a) = Some b"
  from a have "a \<in> set [0..<length h]" by simp
  with all have "case next' (h ! a) of None \<Rightarrow> True | Some b \<Rightarrow> a < b \<and> b < length h"
    by (rule bspec)
  with b show "a < b \<and> b < length h" by simp
next
  fix a
  assume all: "\<forall>a b. a < length h \<longrightarrow> next' (h ! a) = Some b \<longrightarrow> a < b \<and> b < length h"
    and mem: "a \<in> set [0..<length h]"
  from mem have a: "a < length h" by simp
  show "case next' (h ! a) of None \<Rightarrow> True | Some b \<Rightarrow> a < b \<and> b < length h"
  proof (cases "next' (h ! a)")
    case None
    then show ?thesis by simp
  next
    case (Some b)
    from all a Some have "a < b \<and> b < length h" by blast
    with Some show ?thesis by simp
  qed
qed

lemma forwardD:
  "forward h \<Longrightarrow> a < length h \<Longrightarrow> next' (h ! a) = Some b \<Longrightarrow> a < b \<and> b < length h"
  unfolding forward_iff by blast

lemma forwardI:
  "(\<And>a b. a < length h \<Longrightarrow> next' (h ! a) = Some b \<Longrightarrow> a < b \<and> b < length h) \<Longrightarrow> forward h"
  unfolding forward_iff by blast

lemma forward_valid_next:
  "forward h \<Longrightarrow> a < length h \<Longrightarrow> valid_ref h (next' (h ! a))"
  by (auto simp: valid_ref_def dest: forwardD split: option.splits)

lemma forward_chain:
  "forward h \<Longrightarrow> valid_ref h p \<Longrightarrow> \<exists>as. chain h p as"
proof (induction "case p of None \<Rightarrow> 0 | Some a \<Rightarrow> length h - a" arbitrary: p rule: less_induct)
  case less
  show ?case
  proof (cases p)
    case None
    then have "chain h p []" by simp
    then show ?thesis ..
  next
    case (Some a)
    with less.prems have a: "a < length h" by (simp add: valid_ref_def)
    have v: "valid_ref h (next' (h ! a))"
      using forward_valid_next [OF less.prems(1) a] .
    have "(case next' (h ! a) of None \<Rightarrow> 0 | Some b \<Rightarrow> length h - b) < length h - a"
      using forwardD [OF less.prems(1) a] a by (auto split: option.splits)
    with Some have "\<exists>as. chain h (next' (h ! a)) as"
      using less.hyps [of "next' (h ! a)"] less.prems(1) v by simp
    then obtain as where "chain h (next' (h ! a)) as" ..
    with Some a have "chain h p (a # as)" by simp
    then show ?thesis ..
  qed
qed

lemma find_penultimate_forward:
  "forward h \<Longrightarrow> valid_ref h p \<Longrightarrow>
   \<exists>r. find_penultimate h t p = Some r
       \<and> (case r of None \<Rightarrow> True | Some pen \<Rightarrow> pen < length h \<and> next' (h ! pen) = t)"
proof (induction "case p of None \<Rightarrow> 0 | Some a \<Rightarrow> length h - a" arbitrary: p rule: less_induct)
  case less
  show ?case
  proof (cases p)
    case None
    then show ?thesis by (subst find_penultimate.simps) simp
  next
    case (Some a)
    with less.prems have a: "a < length h" by (simp add: valid_ref_def)
    show ?thesis
    proof (cases "next' (h ! a) = t")
      case True
      with Some a show ?thesis by (subst find_penultimate.simps) simp
    next
      case False
      have v: "valid_ref h (next' (h ! a))"
        using forward_valid_next [OF less.prems(1) a] .
      have "(case next' (h ! a) of None \<Rightarrow> 0 | Some b \<Rightarrow> length h - b) < length h - a"
        using forwardD [OF less.prems(1) a] a by (auto split: option.splits)
      with Some have "\<exists>r. find_penultimate h t (next' (h ! a)) = Some r
         \<and> (case r of None \<Rightarrow> True | Some pen \<Rightarrow> pen < length h \<and> next' (h ! pen) = t)"
        using less.hyps [of "next' (h ! a)"] less.prems(1) v by simp
      with Some False show ?thesis by (subst find_penultimate.simps) simp
    qed
  qed
qed

lemma walk_previous_forward:
  "forward h \<Longrightarrow> valid_ref h current \<Longrightarrow> 0 < n \<Longrightarrow>
   walk_previous h n previous current = Inr (Some p, Some c) \<Longrightarrow>
   p < length h \<and> next' (h ! p) = Some c \<and> c < length h"
proof (induction n arbitrary: previous current)
  case 0
  then show ?case by simp
next
  case (Suc n)
  from Suc.prems obtain c0 where c0: "current = Some c0" by (cases current) auto
  with Suc.prems have a: "c0 < length h" by (simp add: valid_ref_def)
  have v: "valid_ref h (next' (h ! c0))"
    using forward_valid_next [OF Suc.prems(1) a] .
  show ?case
  proof (cases n)
    case 0
    with Suc.prems c0 a v show ?thesis by (auto simp: valid_ref_def)
  next
    case (Suc m)
    with Suc.prems c0 Suc.IH [OF Suc.prems(1) v, of "Some c0"] show ?thesis by simp
  qed
qed

lemma store_ok_create: "store_ok createLinkedList"
  by (simp add: store_ok_def createLinkedList_def forward_def valid_ref_def follow_def)

lemma after_Inl [simp]: "after s (Inl e) = s"
  by (simp add: after_def)

lemma after_Inr [simp]: "after s (Inr (x, s')) = s'"
  by (simp add: after_def)

lemma next_createNode [simp]: "next' (createNode v) = None"
  by (simp add: createNode_def)

lemma valid_ref_simps [simp]:
  "valid_ref h None" "valid_ref h (Some a) = (a < length h)"
  by (simp_all add: valid_ref_def)

lemma valid_ref_set_next [simp]: "valid_ref (set_next a x h) p = valid_ref h p"
  by (cases p) simp_all

lemma valid_ref_append: "valid_ref h p \<Longrightarrow> valid_ref (h @ [n]) p"
  by (cases p) simp_all

lemma follow_simps [simp]:
  "follow h None = None" "follow h (Some a) = next' (h ! a)"
  by (simp_all add: follow_def)

lemma forward_set_next:
  assumes "forward h" and "a < length h"
    and "case x of None \<Rightarrow> True | Some b \<Rightarrow> a < b \<and> b < length h"
  shows "forward (set_next a x h)"
proof (rule forwardI)
  fix a' b'
  assume a': "a' < length (set_next a x h)"
    and nx: "next' (set_next a x h ! a') = Some b'"
  show "a' < b' \<and> b' < length (set_next a x h)"
  proof (cases "a' = a")
    case True
    with nx assms(2) have "x = Some b'" by simp
    with assms(3) True show ?thesis by simp
  next
    case False
    with nx a' forwardD [OF assms(1), of a' b'] show ?thesis by simp
  qed
qed

lemma forward_append: "forward h \<Longrightarrow> forward (h @ [createNode v])"
proof (rule forwardI)
  fix a b
  assume f: "forward h" and a: "a < length (h @ [createNode v])"
    and nx: "next' ((h @ [createNode v]) ! a) = Some b"
  show "a < b \<and> b < length (h @ [createNode v])"
  proof (cases "a < length h")
    case True
    with nx forwardD [OF f, of a b] show ?thesis by (simp add: nth_append)
  next
    case False
    with a have "a = length h" by simp
    with nx show ?thesis by (simp add: createNode_def)
  qed
qed

lemma push_store_ok:
  assumes "store_ok s"
  shows "\<exists>s'. push v s = Inr (length (heap s), s') \<and> store_ok s'"
proof (cases "head s")
  case None
  with assms show ?thesis
    by (simp add: push_def Let_def store_ok_def forward_append)
next
  case (Some a)
  with assms obtain t where t: "tail s = Some t" and tl: "t < length (heap s)"
    by (auto simp: store_ok_def)
  let ?h = "set_next t (Some (length (heap s))) (heap s @ [createNode v])"
  from assms have "forward (heap s @ [createNode v])"
    by (simp add: store_ok_def forward_append)
  then have f: "forward ?h"
    by (rule forward_set_next) (use tl in simp_all)
  have "next' (?h ! length (heap s)) = None"
    using tl by simp
  with f assms Some t show ?thesis
    by (simp add: push_def Let_def store_ok_def)
qed

lemma pop_store_ok:
  assumes "store_ok s"
  shows "\<exists>r. pop s = Some r \<and> store_ok (after s r)"
proof (cases "isEmpty s \<or> head s = tail s")
  case True
  then consider "isEmpty s" | "\<not> isEmpty s" "head s = tail s" by blast
  then show ?thesis
  proof cases
    case 1
    with assms show ?thesis by (simp add: pop_def)
  next
    case 2
    with assms show ?thesis
      by (simp add: pop_def Let_def store_ok_def)
  qed
next
  case False
  from assms have f: "forward (heap s)" and v: "valid_ref (heap s) (head s)"
    by (simp_all add: store_ok_def)
  from find_penultimate_forward [OF f v, of "tail s"] obtain r
    where r: "find_penultimate (heap s) (tail s) (head s) = Some r"
      and rp: "case r of None \<Rightarrow> True
               | Some pen \<Rightarrow> pen < length (heap s) \<and> next' (heap s ! pen) = tail s"
    by blast
  show ?thesis
  proof (cases r)
    case None
    with r False assms show ?thesis by (simp add: pop_def Let_def)
  next
    case (Some pen)
    with rp have pen: "pen < length (heap s)" by simp
    have "forward (set_next pen None (heap s))"
      using f pen by (rule forward_set_next) simp
    with Some r False assms pen show ?thesis
      by (simp add: pop_def Let_def store_ok_def)
  qed
qed

lemma delete_store_ok:
  assumes "store_ok s"
  shows "store_ok (after s (delete i s))"
proof (cases "delete i s")
  case (Inl e)
  with assms show ?thesis by simp
next
  case (Inr r)
  obtain x s' where r: "r = (x, s')" by (cases r)
  from assms have f: "forward (heap s)" and v: "valid_ref (heap s) (head s)"
    by (simp_all add: store_ok_def)
  consider (out) "i < 0 \<or> length' s < i" | (zero) "\<not> (i < 0 \<or> length' s < i)" "i = 0"
    | (inner) "\<not> (i < 0 \<or> length' s < i)" "i \<noteq> 0"
    by blast
  then have "store_ok s'"
  proof cases
    case out
    with Inr r assms show ?thesis by (auto simp: delete_def)
  next
    case zero
    with Inr r obtain d where d: "head s = Some d"
      and s': "s' = s\<lparr>head := next' (heap s ! d), length' := length' s - 1\<rparr>"
      by (auto simp: delete_def split: option.splits)
    from v d have "d < length (heap s)" by simp
    from forward_valid_next [OF f this] assms d show ?thesis
      by (auto simp: s' store_ok_def)
  next
    case inner
    with Inr r obtain p c
      where w: "walk_previous (heap s) (nat i) None (head s) = Inr (Some p, Some c)"
        and s': "s' = s\<lparr>heap := set_next p (next' (heap s ! c)) (heap s),
                         length' := length' s - 1\<rparr>"
      by (auto simp: delete_def split: option.splits sum.splits)
    from inner have "0 < nat i" by auto
    from walk_previous_forward [OF f v this w]
    have p: "p < length (heap s)" and pc: "next' (heap s ! p) = Some c"
      and c: "c < length (heap s)" by simp_all
    from forwardD [OF f p pc] have "p < c" by simp
    with forward_valid_next [OF f c] forwardD [OF f c]
    have "case next' (heap s ! c) of None \<Rightarrow> True | Some b \<Rightarrow> p < b \<and> b < length (heap s)"
      by (auto split: option.splits)
    with f p have f': "forward (set_next p (next' (heap s ! c)) (heap s))"
      by (rule forward_set_next)
    from assms pc have np: "tail s \<noteq> Some p"
      by (auto simp: store_ok_def)
    have "follow (set_next p (next' (heap s ! c)) (heap s)) (tail s) = None"
    proof (cases "tail s")
      case None
      then show ?thesis by simp
    next
      case (Some t)
      with np have "t \<noteq> p" by simp
      with Some assms show ?thesis by (simp add: store_ok_def)
    qed
    with f' assms show ?thesis
      by (simp add: s' store_ok_def)
  qed
  with Inr r show ?thesis by simp
qed

lemma get_unchanged: "after s (get i s) = s"
  by (simp add: get_def split: sum.splits)

lemma print_store_ok:
  assumes "store_ok s"
  shows "\<exists>r. print toStr s = Some (r, s)"
proof -
  from assms have "\<exists>as. chain (heap s) (head s) as"
    by (simp add: store_ok_def forward_chain)
  then obtain as where "chain (heap s) (head s) as" ..
  from collect_values_chain [OF this, of "[]"] show ?thesis
    by (simp add: print_def)
qed

lemma exec_store_ok:
  assumes "store_ok s"
  shows "\<exists>s'. exec toStr c s = Some s' \<and> store_ok s'"
proof (cases c)
  case (Push v)
  with push_store_ok [OF assms, of v] show ?thesis by auto
next
  case Pop
  with pop_store_ok [OF assms] show ?thesis by auto
next
  case (Get i)
  with assms show ?thesis by (simp add: get_unchanged)
next
  case (Delete i)
  with delete_store_ok [OF assms, of i] show ?thesis by simp
next
  case Print
  with print_store_ok [OF assms, of toStr] assms show ?thesis by auto
next
  case IsEmpty
  with assms show ?thesis by simp
qed

lemma run_store_ok:
  "store_ok s \<Longrightarrow> \<exists>s'. run toStr cs s = Some s' \<and> store_ok s'"
proof (induction cs arbitrary: s)
  case Nil
  then show ?case by simp
next
  case (Cons c cs)
  from exec_store_ok [OF Cons.prems, of toStr c] obtain s1
    where e: "exec toStr c s = Some s1" and ok: "store_ok s1" by blast
  from Cons.IH [OF ok] e show ?case by simp
qed

lemma run_returns:
  "\<exists>s as. run toStr cs createLinkedList = Some s \<and> store_ok s \<and> chain (heap s) (head s) as"
proof -
  from run_store_ok [OF store_ok_create, of toStr cs] obtain s
    where r: "run toStr cs createLinkedList = Some s" and ok: "store_ok s" by blast
  from ok have "\<exists>as. chain (heap s) (head s) as"
    by (simp add: store_ok_def forward_chain)
  with r ok show ?thesis by blast
qed

subsection \<open>LinkedList: sequences of calls\<close>

text \<open>Every call other than \<open>delete\<close> returns and keeps a well-formed list well-formed.\<close>

lemma exec_well_formed:
  assumes "well_formed s as" and "\<forall>i. c \<noteq> Delete i"
  shows "\<exists>s' bs. exec toStr c s = Some s' \<and> well_formed s' bs"
proof (cases c)
  case (Push v)
  with push_well_formed [OF assms(1), of v] show ?thesis by auto
next
  case Pop
  with pop_well_formed [OF assms(1)] show ?thesis by auto
next
  case (Get i)
  with assms(1) show ?thesis by (auto simp: get_unchanged)
next
  case (Delete i)
  with assms(2) show ?thesis by simp
next
  case Print
  from assms(1) have "chain (heap s) (head s) as" by (simp add: well_formed_def)
  from collect_values_chain [OF this, of "[]"] Print assms(1) show ?thesis
    by (auto simp: print_def)
next
  case IsEmpty
  with assms(1) show ?thesis by auto
qed

text \<open>
  C1. After \<open>push(v)\<close> and \<open>delete(0)\<close> on a fresh list, \<open>length\<close> is 0 and \<open>head\<close> is
  \<open>null\<close> but \<open>tail\<close> is not: invariant I1 does not hold.
\<close>

theorem delete_breaks_invariant:
  "run toStr [Push v, Delete 0] createLinkedList
     = Some \<lparr>heap = [\<lparr>value' = v, next' = None\<rparr>], head = None, tail = Some 0, length' = 0\<rparr>
   \<and> \<not> I1 \<lparr>heap = [\<lparr>value' = v, next' = None\<rparr>], head = None, tail = Some 0, length' = 0\<rparr>"
  by (simp add: push_def createLinkedList_def createNode_def delete_def after_def Let_def I1_def)

subsection \<open>LinkedList: length accounting\<close>

lemma pushes_well_formed:
  "well_formed s as \<Longrightarrow>
   \<exists>s' bs. pushes vs s = Inr s' \<and> well_formed s' (as @ bs) \<and> length bs = length vs"
proof (induction vs arbitrary: s as)
  case Nil
  then show ?case by simp
next
  case (Cons v vs)
  from push_well_formed [OF Cons.prems, of v] obtain s1
    where p: "push v s = Inr (length (heap s), s1)"
      and wf1: "well_formed s1 (as @ [length (heap s)])"
    by blast
  from Cons.IH [OF wf1] obtain s' bs
    where "pushes vs s1 = Inr s'" "well_formed s' ((as @ [length (heap s)]) @ bs)"
      "length bs = length vs"
    by blast
  with p show ?case
    by (intro exI [of _ s'] exI [of _ "length (heap s) # bs"]) simp
qed

lemma pushes_store_ok:
  "store_ok s \<Longrightarrow> pushes vs s = Inr s' \<Longrightarrow> store_ok s'"
proof (induction vs arbitrary: s)
  case Nil
  then show ?case by simp
next
  case (Cons v vs)
  from push_store_ok [OF Cons.prems(1), of v] obtain s1
    where "push v s = Inr (length (heap s), s1)" "store_ok s1" by blast
  with Cons show ?case by simp
qed

lemma remove_length:
  "remove r s = Some (Inr (Some node, s')) \<Longrightarrow> length' s' = length' s - 1"
  by (cases r) (auto dest: pop_length delete_length)

lemma removals_length:
  "removals rs s = Some s' \<Longrightarrow> length' s' = length' s - int (length rs)"
proof (induction rs arbitrary: s)
  case Nil
  then show ?case by simp
next
  case (Cons r rs)
  from Cons.prems obtain node s1
    where r: "remove r s = Some (Inr (Some node, s1))" and rest: "removals rs s1 = Some s'"
    by (auto split: option.splits sum.splits)
  from remove_length [OF r] Cons.IH [OF rest] show ?case by simp
qed

text \<open>
  Where \<open>length\<close> counts the chain from \<open>head\<close>, a call of \<open>pop\<close> or \<open>delete\<close> either
  returns a node, and then both the chain and \<open>length\<close> lose one, or it leaves the list as
  it was.
\<close>

lemma find_penultimate_on_chain:
  "chain h p as \<Longrightarrow> find_penultimate h t p = Some (Some pen) \<Longrightarrow> pen \<in> set as"
proof (induction as arbitrary: p)
  case Nil
  then have "find_penultimate h t p = Some None"
    by (subst find_penultimate.simps) simp
  with Nil show ?case by simp
next
  case (Cons a as)
  then have p: "p = Some a" and rest: "chain h (next' (h ! a)) as" by simp_all
  show ?case
  proof (cases "next' (h ! a) = t")
    case True
    then have "find_penultimate h t p = Some (Some a)"
      by (subst find_penultimate.simps) (simp add: p)
    with Cons.prems show ?thesis by simp
  next
    case False
    then have "find_penultimate h t p = find_penultimate h t (next' (h ! a))"
      by (subst find_penultimate.simps) (simp add: p)
    with Cons.prems Cons.IH [OF rest] show ?thesis by simp
  qed
qed

lemma returned_node_simps [simp]:
  "returned_node (Inl e) = 0" "returned_node (Inr (None, s)) = 0"
  "returned_node (Inr (Some a, s)) = 1"
  by (simp_all add: returned_node_def)

lemma pop_counted:
  assumes "counted s as"
  shows "\<exists>res bs. pop s = Some res \<and> counted (after s res) bs
                 \<and> length bs + returned_node res = length as"
proof -
  from assms have ok: "store_ok s" and ch: "chain (heap s) (head s) as"
    and len: "length' s = int (length as)"
    by (simp_all add: counted_def)
  from pop_store_ok [OF ok] obtain res where res: "pop s = Some res"
    and ok': "store_ok (after s res)" by blast
  have hd: "head s = (if as = [] then None else Some (hd as))"
    using ch by (rule chain_head)
  have same: ?thesis if "after s res = s" "returned_node res = 0"
  proof -
    from that assms have "counted (after s res) as \<and> length as + returned_node res = length as"
      by simp
    with res show ?thesis by blast
  qed
  have less: ?thesis
    if "chain (heap (after s res)) (head (after s res)) bs"
      "length' (after s res) = int (length bs)" "Suc (length bs) = length as"
      "returned_node res = 1" for bs
  proof -
    from that ok' have "counted (after s res) bs \<and> length bs + returned_node res = length as"
      by (simp add: counted_def)
    with res show ?thesis by blast
  qed
  show ?thesis
  proof (cases "as = []")
    case True
    with len res have "res = Inr (None, s)" by (simp add: pop_def isEmpty_def)
    then show ?thesis by (intro same) simp_all
  next
    case False
    with len have ne: "\<not> isEmpty s" by (simp add: isEmpty_def)
    from False hd have h: "head s = Some (hd as)" by simp
    from ok h have "tail s \<noteq> None" by (simp add: store_ok_def)
    then obtain t where t: "tail s = Some t" by blast
    from ok t have tn: "next' (heap s ! t) = None" by (simp add: store_ok_def)
    show ?thesis
    proof (cases "head s = tail s")
      case True
      with h t have "hd as = t" by simp
      with ch False tn have as: "as = [t]" by (cases as) (simp_all add: chain_None)
      from True ne res t
      have r: "res = Inr (Some t, s\<lparr>head := None, tail := None, length' := length' s - 1\<rparr>)"
        by (simp add: pop_def)
      show ?thesis
        by (rule less [of "[]"]) (simp_all add: r as len)
    next
      case neq: False
      show ?thesis
      proof (cases "find_penultimate (heap s) (tail s) (head s)")
        case None
        with neq ne res show ?thesis by (simp add: pop_def)
      next
        case (Some r)
        show ?thesis
        proof (cases r)
          case None
          with Some neq ne res have "res = Inl TypeError" by (simp add: pop_def)
          then show ?thesis by (intro same) simp_all
        next
          case (Some pen)
          with \<open>find_penultimate (heap s) (tail s) (head s) = Some r\<close>
          have fp: "find_penultimate (heap s) (tail s) (head s) = Some (Some pen)" by simp
          from find_penultimate_on_chain [OF ch fp] obtain xs ys where
            split: "as = xs @ pen # ys" and pnotin: "pen \<notin> set xs"
            using split_list_first by fast
          from ok have f: "forward (heap s)" and v: "valid_ref (heap s) (head s)"
            by (simp_all add: store_ok_def)
          from find_penultimate_forward [OF f v, of "tail s"] fp
          have pn: "next' (heap s ! pen) = tail s" by simp
          from ch split obtain q where "chain (heap s) q (pen # ys)"
            using chain_append by blast
          with pn t have "chain (heap s) (Some t) ys" by simp
          with tn have ys: "ys = [t]" by (cases ys) (simp_all add: chain_None)
          from fp neq ne res t
          have r: "res = Inr (Some t, s\<lparr>heap := set_next pen None (heap s), tail := Some pen,
                                        length' := length' s - 1\<rparr>)"
            by (simp add: pop_def)
          have c: "chain (set_next pen None (heap s)) (head s) (xs @ [pen])"
            using chain_cut [of "heap s" "head s" xs pen ys] ch split pnotin by simp
          show ?thesis
            by (rule less [of "xs @ [pen]"]) (simp_all add: r c len split ys)
        qed
      qed
    qed
  qed
qed

lemma delete_counted:
  assumes "counted s as"
  shows "\<exists>bs. counted (after s (delete i s)) bs
            \<and> length bs + returned_node (delete i s) = length as"
proof -
  from assms have ok: "store_ok s" and ch: "chain (heap s) (head s) as"
    and len: "length' s = int (length as)"
    by (simp_all add: counted_def)
  have ok': "store_ok (after s (delete i s))"
    using ok by (rule delete_store_ok)
  have hd: "head s = (if as = [] then None else Some (hd as))"
    using ch by (rule chain_head)
  consider (out) "i < 0 \<or> length' s < i" | (zero) "i = 0" | (last) "0 < i" "i = length' s"
    | (inner) "0 < i" "i < length' s"
    by linarith
  then have "\<exists>bs. chain (heap (after s (delete i s))) (head (after s (delete i s))) bs
             \<and> length' (after s (delete i s)) = int (length bs)
             \<and> length bs + returned_node (delete i s) = length as"
  proof cases
    case out
    then have "delete i s = Inr (None, s)" by (rule delete_out_of_range)
    with ch len show ?thesis by auto
  next
    case zero
    show ?thesis
    proof (cases as)
      case Nil
      with hd zero len have "delete i s = Inl TypeError" by (simp add: delete_def)
      with ch len Nil show ?thesis by auto
    next
      case (Cons a bs)
      with hd zero len
      have "delete i s = Inr (Some a, s\<lparr>head := next' (heap s ! a), length' := length' s - 1\<rparr>)"
        by (simp add: delete_def)
      with ch len Cons show ?thesis by auto
    qed
  next
    case last
    from last len have "as \<noteq> []" by auto
    have "walk_previous (heap s) (length as) None (head s)
            = Inr (Some (as ! (length as - 1)), None)"
      using walk_previous_chain [OF ch, of "length as" None] \<open>as \<noteq> []\<close> by simp
    with last len have "delete i s = Inl TypeError" by (simp add: delete_def)
    with ch len show ?thesis by auto
  next
    case inner
    define k where "k = nat i - 1"
    from inner len have k: "Suc k < length as" "nat i = Suc k" by (simp_all add: k_def)
    from k have "as = take k as @ as ! k # drop (Suc k) as"
      by (simp add: id_take_nth_drop)
    also from k have "drop (Suc k) as = as ! Suc k # drop (Suc (Suc k)) as"
      by (simp add: Cons_nth_drop_Suc)
    finally have split: "as = take k as @ as ! k # as ! Suc k # drop (Suc (Suc k)) as" .
    have wp: "walk_previous (heap s) (nat i) None (head s)
            = Inr (Some (as ! k), Some (as ! Suc k))"
      using walk_previous_chain [OF ch, of "nat i" None] k by simp
    with inner have d: "delete i s = Inr (Some (as ! Suc k),
          s\<lparr>heap := set_next (as ! k) (next' (heap s ! (as ! Suc k))) (heap s),
            length' := length' s - 1\<rparr>)"
      by (simp add: delete_def)
    from ch split
    have "chain (heap s) (head s) (take k as @ as ! k # as ! Suc k # drop (Suc (Suc k)) as)"
      by simp
    then have "chain (set_next (as ! k) (next' (heap s ! (as ! Suc k))) (heap s)) (head s)
                 (take k as @ as ! k # drop (Suc (Suc k)) as)"
      by (rule chain_splice)
    with d len k show ?thesis
      by (intro exI [of _ "take k as @ as ! k # drop (Suc (Suc k)) as"]) auto
  qed
  with ok' show ?thesis by (auto simp: counted_def)
qed

lemma remove_counted:
  assumes "counted s as"
  shows "\<exists>res bs. remove r s = Some res \<and> counted (after s res) bs
                 \<and> length bs + returned_node res = length as"
proof (cases r)
  case ByPop
  with pop_counted [OF assms] show ?thesis by simp
next
  case (ByDelete i)
  with delete_counted [OF assms, of i] show ?thesis by simp
qed

lemma count_removals_counted:
  "counted s as \<Longrightarrow>
   \<exists>m s' bs. count_removals rs s = Some (m, s') \<and> counted s' bs \<and> length bs + m = length as"
proof (induction rs arbitrary: s as)
  case Nil
  then show ?case by auto
next
  case (Cons r rs)
  from remove_counted [OF Cons.prems, of r] obtain res bs
    where r: "remove r s = Some res" and c: "counted (after s res) bs"
      and n: "length bs + returned_node res = length as"
    by blast
  from Cons.IH [OF c] obtain m s' cs
    where "count_removals rs (after s res) = Some (m, s')" "counted s' cs"
      "length cs + m = length bs"
    by blast
  with r n show ?case by auto
qed

lemma removals_count:
  "removals rs s = Some s' \<Longrightarrow> count_removals rs s = Some (length rs, s')"
proof (induction rs arbitrary: s)
  case Nil
  then show ?case by simp
next
  case (Cons r rs)
  from Cons.prems obtain node s1
    where r: "remove r s = Some (Inr (Some node, s1))" and rest: "removals rs s1 = Some s'"
    by (auto split: option.splits sum.splits)
  from Cons.IH [OF rest] r show ?case by simp
qed

text \<open>
  C7. \<open>N\<close> calls of \<open>push\<close> on a fresh list all return and leave \<open>length = N\<close>. After
  any \<open>M\<close> calls of \<open>pop\<close> or \<open>delete\<close> that follow, each returning a node, \<open>length\<close> is
  \<open>N - M\<close>, and \<open>M\<close> is at most \<open>N\<close>. More generally, every sequence of calls of \<open>pop\<close>
  and \<open>delete\<close> that follows returns or throws call by call, and leaves \<open>length = N - M\<close>
  with \<open>M\<close> the number of its calls that returned a node.
\<close>

theorem length_accounting:
  "\<exists>s1. pushes vs createLinkedList = Inr s1 \<and> length' s1 = int (length vs)
        \<and> (\<forall>rs s2. removals rs s1 = Some s2 \<longrightarrow>
               length rs \<le> length vs \<and> length' s2 = int (length vs) - int (length rs))
        \<and> (\<forall>rs. \<exists>m s2. count_removals rs s1 = Some (m, s2)
               \<and> m \<le> length vs \<and> length' s2 = int (length vs) - int m)"
proof -
  from pushes_well_formed [OF well_formed_create, of vs] obtain s1 bs
    where p: "pushes vs createLinkedList = Inr s1" and wf: "well_formed s1 ([] @ bs)"
      and n: "length bs = length vs"
    by blast
  from wf n have len: "length' s1 = int (length vs)"
    by (simp add: well_formed_def)
  from pushes_store_ok [OF store_ok_create p] wf have c: "counted s1 bs"
    by (simp add: counted_def well_formed_def)
  have any: "\<exists>m s2. count_removals rs s1 = Some (m, s2)
          \<and> m \<le> length vs \<and> length' s2 = int (length vs) - int m" for rs
  proof -
    from count_removals_counted [OF c, of rs] obtain m s2 cs
      where "count_removals rs s1 = Some (m, s2)" "counted s2 cs" "length cs + m = length bs"
      by blast
    with n show ?thesis by (auto simp: counted_def)
  qed
  have all: "length rs \<le> length vs \<and> length' s2 = int (length vs) - int (length rs)"
    if "removals rs s1 = Some s2" for rs s2
  proof -
    from removals_count [OF that] any [of rs] show ?thesis by auto
  qed
  from p len any all show ?thesis by blast
qed

theorem length_accounting_witness:
  "pushes [''a'', ''b'', ''c''] createLinkedList
     = Inr \<lparr>heap = [\<lparr>value' = ''a'', next' = Some 1\<rparr>, \<lparr>value' = ''b'', next' = Some 2\<rparr>,
                    \<lparr>value' = ''c'', next' = None\<rparr>],
            head = Some 0, tail = Some 2, length' = 3\<rparr>
   \<and> removals [ByDelete 1, ByPop]
         \<lparr>heap = [\<lparr>value' = ''a'', next' = Some 1\<rparr>, \<lparr>value' = ''b'', next' = Some 2\<rparr>,
                  \<lparr>value' = ''c'', next' = None\<rparr>],
          head = Some 0, tail = Some 2, length' = 3\<rparr>
     = Some \<lparr>heap = [\<lparr>value' = ''a'', next' = None\<rparr>, \<lparr>value' = ''b'', next' = Some 2\<rparr>,
                     \<lparr>value' = ''c'', next' = None\<rparr>],
             head = Some 0, tail = Some 0, length' = 1\<rparr>
   \<and> length' \<lparr>heap = [\<lparr>value' = ''a'', next' = None\<rparr>, \<lparr>value' = ''b'', next' = Some 2\<rparr>,
                       \<lparr>value' = ''c'', next' = None\<rparr>],
               head = Some 0, tail = Some 0, length' = 1\<rparr>
     = int (length [''a'', ''b'', ''c'']) - int (length [ByDelete 1, ByPop])"
proof -
  let ?s3 = "\<lparr>heap = [\<lparr>value' = ''a'', next' = Some 1\<rparr>, \<lparr>value' = ''b'', next' = Some 2\<rparr>,
                    \<lparr>value' = ''c'', next' = None\<rparr>],
            head = Some (0::nat), tail = Some (2::nat), length' = 3\<rparr>"
  let ?s1 = "\<lparr>heap = [\<lparr>value' = ''a'', next' = None\<rparr>, \<lparr>value' = ''b'', next' = Some 2\<rparr>,
                     \<lparr>value' = ''c'', next' = None\<rparr>],
             head = Some (0::nat), tail = Some (0::nat), length' = 1\<rparr>"
  have p: "pushes [''a'', ''b'', ''c''] createLinkedList = Inr ?s3"
    by (simp add: push_def createLinkedList_def createNode_def set_next_def Let_def)
  have "find_penultimate
          [\<lparr>value' = ''a'', next' = Some 2\<rparr>, \<lparr>value' = ''b'', next' = Some 2\<rparr>,
           \<lparr>value' = ''c'', next' = None\<rparr>] (Some 2) (Some 0) = Some (Some 0)"
    by (subst find_penultimate.simps) simp
  then have r: "removals [ByDelete 1, ByPop] ?s3 = Some ?s1"
    by (simp add: delete_def pop_def isEmpty_def set_next_def Let_def eval_nat_numeral)
  from length_accounting [of "[''a'', ''b'', ''c'']"] obtain s
    where s: "pushes [''a'', ''b'', ''c''] createLinkedList = Inr s"
      and all: "\<forall>rs s2. removals rs s = Some s2 \<longrightarrow>
                  length rs \<le> length [''a'', ''b'', ''c'']
                  \<and> length' s2 = int (length [''a'', ''b'', ''c'']) - int (length rs)"
    by blast
  from s p have "s = ?s3" by simp
  with all r
  have "length' ?s1 = int (length [''a'', ''b'', ''c'']) - int (length [ByDelete 1, ByPop])"
    by blast
  with p r show ?thesis by blast
qed

end
